theory Spec2Isabelle
  imports Main
begin

section \<open>Strings and characters\<close>

text \<open>
  An input is modelled as a \<^typ>\<open>string\<close>, one \<^typ>\<open>char\<close> per code unit: the model
  covers the inputs whose code units are below 256, the characters of Latin-1. On
  these \<^verbatim>\<open>toLowerCase\<close> maps A-Z and the capital letters U+00C0 to U+00DE
  (but not the multiplication sign U+00D7) to the character 32 places further, and leaves
  every other character.
\<close>

definition is_upper :: "char \<Rightarrow> bool" where
  "is_upper c = (let n = (of_char c :: nat) in 65 \<le> n \<and> n \<le> 90)"

definition is_lower :: "char \<Rightarrow> bool" where
  "is_lower c = (let n = (of_char c :: nat) in 97 \<le> n \<and> n \<le> 122)"

definition is_digit :: "char \<Rightarrow> bool" where
  "is_digit c = (let n = (of_char c :: nat) in 48 \<le> n \<and> n \<le> 57)"

definition has_lower :: "char \<Rightarrow> bool" where
  "has_lower c = (let n = (of_char c :: nat) in
     (65 \<le> n \<and> n \<le> 90) \<or> (192 \<le> n \<and> n \<le> 222 \<and> n \<noteq> 215))"

definition to_lower :: "char \<Rightarrow> char" where
  "to_lower c = (if has_lower c then char_of ((of_char c :: nat) + 32) else c)"

definition toLowerCase :: "string \<Rightarrow> string" where
  "toLowerCase s = map to_lower s"

text \<open>
  A text that the program makes can have a code unit from U+0100 on, also when the input
  has none: the capital of a character below U+0100 can lie above. Such a text is a list
  of code units, each one a character of Latin-1 or, from U+0100 on, its number.
\<close>

datatype code_unit = Latin1 char | Above nat

type_synonym ustring = "code_unit list"

definition units :: "string \<Rightarrow> ustring" where
  "units s = map Latin1 s"

text \<open>
  \<^verbatim>\<open>toUpperCase\<close> on a string of one character: a-z and the small letters U+00E0 to
  U+00FE (but not the division sign U+00F7) go to the character 32 places before, the
  sharp s U+00DF becomes SS, the micro sign U+00B5 becomes U+039C and U+00FF becomes
  U+0178; every other character stays.
\<close>

definition has_upper :: "char \<Rightarrow> bool" where
  "has_upper c = (let n = (of_char c :: nat) in
     (97 \<le> n \<and> n \<le> 122) \<or> (224 \<le> n \<and> n \<le> 254 \<and> n \<noteq> 247))"

definition to_upper :: "char \<Rightarrow> ustring" where
  "to_upper c =
     (if has_upper c then [Latin1 (char_of ((of_char c :: nat) - 32))]
      else if c = CHR 0xDF then units ''SS''
      else if c = CHR 0xB5 then [Above 0x39C]
      else if c = CHR 0xFF then [Above 0x178]
      else [Latin1 c])"

text \<open>
  The class \<^verbatim>\<open>\s\<close>, which is also what \<^verbatim>\<open>trim\<close> removes: tab, line feed, vertical
  tab, form feed, carriage return, space and the no-break space U+00A0.
\<close>

definition is_space :: "char \<Rightarrow> bool" where
  "is_space c =
     (c \<in> set [CHR 0x09, CHR 0x0A, CHR 0x0B, CHR 0x0C, CHR 0x0D, CHR '' '', CHR 0xA0])"

text \<open>The dot of a regular expression (no flag s) matches all but the line terminators.\<close>

definition is_line_terminator :: "char \<Rightarrow> bool" where
  "is_line_terminator c = (c = CHR 0x0A \<or> c = CHR 0x0D)"

definition dot :: "char \<Rightarrow> bool" where
  "dot c = (\<not> is_line_terminator c)"

text \<open>The word characters of \<^verbatim>\<open>\b\<close>: the letters A-Z and a-z, digits and the underscore.\<close>

definition is_word :: "char \<Rightarrow> bool" where
  "is_word c = (is_upper c \<or> is_lower c \<or> is_digit c \<or> c = CHR ''_'')"

definition trim :: "string \<Rightarrow> string" where
  "trim s = rev (dropWhile is_space (rev (dropWhile is_space s)))"

text \<open>
  \<^verbatim>\<open>trim\<close> on a list of code units; the white space from U+0100 on is U+1680, U+2000 to
  U+200A, U+2028, U+2029, U+202F, U+205F, U+3000 and U+FEFF.
\<close>

fun is_space_unit :: "code_unit \<Rightarrow> bool" where
  "is_space_unit (Latin1 c) = is_space c"
| "is_space_unit (Above n) =
     (n = 0x1680 \<or> (0x2000 \<le> n \<and> n \<le> 0x200A) \<or> n = 0x2028 \<or> n = 0x2029 \<or> n = 0x202F
      \<or> n = 0x205F \<or> n = 0x3000 \<or> n = 0xFEFF)"

definition trim_units :: "ustring \<Rightarrow> ustring" where
  "trim_units s = rev (dropWhile is_space_unit (rev (dropWhile is_space_unit s)))"

text \<open>\<^verbatim>\<open>String.prototype.includes\<close>: the search string occurs at some position.\<close>

fun starts_with :: "string \<Rightarrow> string \<Rightarrow> bool" where
  "starts_with s [] = True"
| "starts_with [] (c # t) = False"
| "starts_with (d # s) (c # t) = (d = c \<and> starts_with s t)"

fun includes_str :: "string \<Rightarrow> string \<Rightarrow> bool" where
  "includes_str [] t = starts_with [] t"
| "includes_str (d # s) t = (starts_with (d # s) t \<or> includes_str s t)"

text \<open>\<^verbatim>\<open>Array.prototype.join\<close>.\<close>

fun join :: "'a list \<Rightarrow> 'a list list \<Rightarrow> 'a list" where
  "join sep [] = []"
| "join sep [x] = x"
| "join sep (x # y # ys) = x @ sep @ join sep (y # ys)"

section \<open>Failures\<close>

text \<open>
  A call that does not return a value either never leaves a loop or throws:
  reading \<^verbatim>\<open>m[1].trim()\<close> when the group took no part in the match is a TypeError.
\<close>

datatype failure = Diverges | TypeError

type_synonym 'a res = "failure + 'a"

section \<open>Regular expressions\<close>

text \<open>
  The fragment of the regular expressions used by the pattern tables. A matcher is a
  function from a position to the list of positions where a match may end, in the
  order in which the backtracking engine tries them; the match is the head of the list.
  A position is the character before it (if any), the rest of the input, and the
  text of capture group 1 (if set). Quantifiers range over one character class, which
  is all the tables need.
\<close>

datatype re =
    Eps
  | One "char \<Rightarrow> bool"
  | Seq re re
  | Alt re re
  | PlusG "char \<Rightarrow> bool"
  | PlusL "char \<Rightarrow> bool"
  | StarG "char \<Rightarrow> bool"
  | Grp re
  | Wb
  | Bol
  | Eol

type_synonym pos = "char option \<times> string \<times> string option"

fun run :: "(char \<Rightarrow> bool) \<Rightarrow> pos \<Rightarrow> pos list" where
  "run P (p, [], g) = []"
| "run P (p, c # cs, g) = (if P c then (Some c, cs, g) # run P (Some c, cs, g) else [])"

definition word_before :: "char option \<Rightarrow> bool" where
  "word_before p = (case p of None \<Rightarrow> False | Some c \<Rightarrow> is_word c)"

definition word_after :: "string \<Rightarrow> bool" where
  "word_after cs = (case cs of [] \<Rightarrow> False | c # _ \<Rightarrow> is_word c)"

fun matches :: "re \<Rightarrow> pos \<Rightarrow> pos list" where
  "matches Eps st = [st]"
| "matches (One P) (p, [], g) = []"
| "matches (One P) (p, c # cs, g) = (if P c then [(Some c, cs, g)] else [])"
| "matches (Seq a b) st = concat (map (matches b) (matches a st))"
| "matches (Alt a b) st = matches a st @ matches b st"
| "matches (PlusG P) st = rev (run P st)"
| "matches (PlusL P) st = run P st"
| "matches (StarG P) st = rev (run P st) @ [st]"
| "matches (Grp a) (p, cs, g) =
     map (\<lambda>(p', cs', g'). (p', cs', Some (take (length cs - length cs') cs)))
       (matches a (p, cs, g))"
| "matches Wb (p, cs, g) = (if word_before p \<noteq> word_after cs then [(p, cs, g)] else [])"
| "matches Bol (p, cs, g) = (if p = None then [(p, cs, g)] else [])"
| "matches Eol (p, cs, g) = (if cs = [] then [(p, cs, g)] else [])"

text \<open>
  One call of \<^verbatim>\<open>exec\<close>: the start positions are tried from left to right. The result is
  the text skipped before the match and the position after it.
\<close>

fun search :: "re \<Rightarrow> char option \<times> string \<Rightarrow> (string \<times> pos) option" where
  "search r (p, []) =
     (case matches r (p, [], None) of [] \<Rightarrow> None | st # _ \<Rightarrow> Some ([], st))"
| "search r (p, c # cs) =
     (case matches r (p, c # cs, None) of
        [] \<Rightarrow> (case search r (Some c, cs) of
                 None \<Rightarrow> None
               | Some (b, st) \<Rightarrow> Some (c # b, st))
      | st # _ \<Rightarrow> Some ([], st))"

text \<open>\<^verbatim>\<open>pattern.test(text)\<close> on a pattern without the flag g.\<close>

definition test :: "re \<Rightarrow> string \<Rightarrow> bool" where
  "test r s = (search r (None, s) \<noteq> None)"

text \<open>
  \<^verbatim>\<open>while ((match = regex.exec(text)) !== null) body\<close>. With the flag g each call starts
  where the last match ended; when a match ends where the call started, the next call
  finds it again and the loop never ends. Without the flag g every call starts at 0, so
  the loop never ends once there is a match. The body gets group 1 of the match.
\<close>

function exec_global ::
  "re \<Rightarrow> (string option \<Rightarrow> 'a \<Rightarrow> 'a res) \<Rightarrow> char option \<times> string \<Rightarrow> 'a \<Rightarrow> 'a res" where
  "exec_global r body (p, cs) acc =
     (case search r (p, cs) of
        None \<Rightarrow> Inr acc
      | Some (b, (p', cs', g)) \<Rightarrow>
          (case body g acc of
             Inl e \<Rightarrow> Inl e
           | Inr acc' \<Rightarrow>
               if length cs' < length cs then exec_global r body (p', cs') acc'
               else Inl Diverges))"
  by pat_completeness auto
termination
  by (relation "measure (\<lambda>(r, body, (p, cs), acc). length cs)") auto

declare exec_global.simps [simp del]

record regex =
  source :: re
  global :: bool

definition exec_while :: "regex \<Rightarrow> string \<Rightarrow> (string option \<Rightarrow> 'a \<Rightarrow> 'a res) \<Rightarrow> 'a \<Rightarrow> 'a res" where
  "exec_while rx s body acc =
     (if global rx then exec_global (source rx) body (None, s) acc
      else (case search (source rx) (None, s) of
              None \<Rightarrow> Inr acc
            | Some (b, (p', cs', g)) \<Rightarrow>
                (case body g acc of Inl e \<Rightarrow> Inl e | Inr acc' \<Rightarrow> Inl Diverges)))"

subsection \<open>Writing patterns\<close>

definition chr :: "char \<Rightarrow> re" where
  "chr c = One (\<lambda>x. x = c)"

text \<open>
  A character of a pattern with the flag i matches the characters with the same
  canonical form. The characters of the patterns are ASCII, and a character from U+0080
  on never has the canonical form of an ASCII character: a letter of a pattern matches
  its two ASCII cases, every other character of a pattern matches itself.
\<close>

definition ci :: "char \<Rightarrow> re" where
  "ci c = One (\<lambda>x. to_lower x = to_lower c)"

fun sq :: "re list \<Rightarrow> re" where
  "sq [] = Eps"
| "sq [r] = r"
| "sq (r # rs) = Seq r (sq rs)"

fun alts :: "re list \<Rightarrow> re" where
  "alts [] = One (\<lambda>x. False)"
| "alts [r] = r"
| "alts (r # rs) = Alt r (alts rs)"

definition lit :: "string \<Rightarrow> re" where
  "lit s = sq (map chr s)"

definition liti :: "string \<Rightarrow> re" where
  "liti s = sq (map ci s)"

definition Opt :: "re \<Rightarrow> re" where
  "Opt r = Alt r Eps"

definition plural :: "string \<Rightarrow> re" where
  "plural w = Seq (liti w) (Opt (ci CHR ''s''))"

text \<open>\<^verbatim>\<open>\b(w1|w2|...)\b\<close> with the flag i.\<close>

definition any_word :: "re list \<Rightarrow> re" where
  "any_word ws = sq [Wb, alts ws, Wb]"

text \<open>\<^verbatim>\<open>\bfor\s+(w1|w2|...)\b\<close> with the flag i.\<close>

definition for_word :: "re list \<Rightarrow> re" where
  "for_word ws = sq [Wb, liti ''for'', PlusG is_space, alts ws, Wb]"

section \<open>The data model\<close>

datatype ctype = Hard | Soft

record constraint =
  constraint_text :: string
  constraint_type :: ctype

datatype severity = Warning | Blocking

datatype conflict_kind = ConstraintKind | GoalKind | OutputKind

record conflict =
  conflict_type :: conflict_kind
  description :: string
  severity :: severity
  terms :: "string \<times> string"

datatype len = Short | Medium | Long | AnyLength

record outputExpectation =
  oe_length :: "len option"
  format :: "string option"
  "structure" :: "string list option"

record constraints =
  hard :: "constraint list"
  soft :: "constraint list"

record intent =
  version :: string
  primaryGoal :: ustring
  taskType :: "string option"
  audience :: "string option"
  domain :: "string option"
  constraints :: constraints
  outputExpectations :: "outputExpectation option"
  conflicts :: "conflict list"
  requiresClarification :: bool
  rawInput :: string
  assumptions :: "string list"

record normalizeResponse =
  response_intent :: intent
  irl :: ustring
  compiled :: ustring

definition SCHEMA_VERSION :: string where
  "SCHEMA_VERSION = ''0.1.0''"

text \<open>A string or null in a condition: null and the empty string count as false.\<close>

definition truthy :: "string option \<Rightarrow> bool" where
  "truthy x = (case x of None \<Rightarrow> False | Some s \<Rightarrow> s \<noteq> [])"

definition len_str :: "len \<Rightarrow> string" where
  "len_str l = (case l of Short \<Rightarrow> ''short'' | Medium \<Rightarrow> ''medium'' | Long \<Rightarrow> ''long''
                | AnyLength \<Rightarrow> ''any'')"

section \<open>The conflict detector\<close>

record conflictRule =
  rule_terms :: "string \<times> string"
  rule_description :: string
  rule_severity :: severity
  rule_type :: conflict_kind

definition CONFLICT_RULES :: "conflictRule list" where
  "CONFLICT_RULES = [
     \<lparr>rule_terms = (''simple'', ''detailed''),
      rule_description = ''Request asks for both simple and detailed output'',
      rule_severity = Warning, rule_type = ConstraintKind\<rparr>,
     \<lparr>rule_terms = (''short'', ''comprehensive''),
      rule_description = ''Request asks for both short and comprehensive output'',
      rule_severity = Warning, rule_type = OutputKind\<rparr>,
     \<lparr>rule_terms = (''short'', ''in-depth''),
      rule_description = ''Request asks for both short and in-depth content'',
      rule_severity = Warning, rule_type = OutputKind\<rparr>,
     \<lparr>rule_terms = (''brief'', ''thorough''),
      rule_description = ''Request asks for both brief and thorough output'',
      rule_severity = Warning, rule_type = OutputKind\<rparr>,
     \<lparr>rule_terms = (''creative'', ''strict''),
      rule_description = ''Request asks for both creative and strict approach'',
      rule_severity = Warning, rule_type = ConstraintKind\<rparr>,
     \<lparr>rule_terms = (''creative'', ''formal''),
      rule_description = ''Creative tone conflicts with formal style requirement'',
      rule_severity = Warning, rule_type = ConstraintKind\<rparr>,
     \<lparr>rule_terms = (''casual'', ''professional''),
      rule_description = ''Casual tone conflicts with professional style'',
      rule_severity = Warning, rule_type = ConstraintKind\<rparr>,
     \<lparr>rule_terms = (''fast'', ''perfect''),
      rule_description = ''Prioritizing speed may conflict with perfectionism'',
      rule_severity = Warning, rule_type = ConstraintKind\<rparr>,
     \<lparr>rule_terms = (''minimal'', ''feature-rich''),
      rule_description = ''Minimal design conflicts with feature-rich requirements'',
      rule_severity = Blocking, rule_type = GoalKind\<rparr>,
     \<lparr>rule_terms = (''concise'', ''exhaustive''),
      rule_description = ''Concise output conflicts with exhaustive coverage'',
      rule_severity = Warning, rule_type = OutputKind\<rparr>]"

text \<open>The test of the loop body: both terms occur in the lower-cased text.\<close>

definition fires :: "string \<Rightarrow> conflictRule \<Rightarrow> bool" where
  "fires lowerText rule =
     (let hasTerm1 = includes_str lowerText (fst (rule_terms rule));
          hasTerm2 = includes_str lowerText (snd (rule_terms rule))
      in hasTerm1 \<and> hasTerm2)"

text \<open>The entry pushed by the loop body.\<close>

definition conflict_of :: "conflictRule \<Rightarrow> conflict" where
  "conflict_of rule =
     \<lparr>conflict_type = rule_type rule, description = rule_description rule,
      severity = rule_severity rule, terms = rule_terms rule\<rparr>"

fun detect_loop :: "string \<Rightarrow> conflictRule list \<Rightarrow> conflict list \<Rightarrow> conflict list" where
  "detect_loop lowerText [] found = found"
| "detect_loop lowerText (rule # rules) found =
     detect_loop lowerText rules
       (if fires lowerText rule then found @ [conflict_of rule] else found)"

definition detectConflicts :: "string \<Rightarrow> conflict list" where
  "detectConflicts txt = detect_loop (toLowerCase txt) CONFLICT_RULES []"

section \<open>The pattern tables\<close>

definition TASK_TYPE_PATTERNS :: "(string \<times> re list) list" where
  "TASK_TYPE_PATTERNS = [
     (''generate'', [any_word (map liti [''create'', ''generate'', ''build'', ''make'', ''write'',
        ''produce'', ''design''])]),
     (''analyze'', [any_word (map liti [''analyze'', ''examine'', ''review'', ''evaluate'',
        ''assess'', ''audit''])]),
     (''explain'', [any_word (map liti [''explain'', ''describe'', ''clarify'', ''elaborate'',
        ''break down''])]),
     (''fix'', [any_word (map liti [''fix'', ''repair'', ''debug'', ''solve'', ''resolve'',
        ''correct''])]),
     (''optimize'', [any_word (map liti [''optimize'', ''improve'', ''enhance'', ''refactor'',
        ''streamline''])]),
     (''convert'', [any_word (map liti [''convert'', ''transform'', ''translate'', ''migrate'',
        ''port''])]),
     (''summarize'', [any_word (map liti [''summarize'', ''condense'', ''tldr'', ''brief'',
        ''overview''])])]"

definition AUDIENCE_PATTERNS :: "(re \<times> string) list" where
  "AUDIENCE_PATTERNS = [
     (for_word [plural ''beginner'', plural ''newbie'', plural ''novice''], ''beginners''),
     (for_word [plural ''expert'', plural ''advanced user'', plural ''professional''],
      ''experts''),
     (for_word [plural ''developer'', plural ''dev'', plural ''engineer'',
        plural ''programmer''], ''developers''),
     (for_word [plural ''manager'', plural ''executive'', liti ''leadership''], ''managers''),
     (for_word [plural ''designer'', liti ''ux'', liti ''ui''], ''designers''),
     (for_word [plural ''student'', plural ''learner''], ''students''),
     (for_word [plural ''customer'', plural ''user'', plural ''client''], ''end users''),
     (for_word [plural ''founder'', plural ''startup'', plural ''entrepreneur''],
      ''startup founders''),
     (for_word [liti ''children'', liti ''kids''], ''children''),
     (sq [Wb, liti ''technical'', PlusG is_space, liti ''audience'', Wb],
      ''technical audience''),
     (sq [Wb, liti ''non-technical'', Wb], ''non-technical audience'')]"

definition DOMAIN_PATTERNS :: "(re \<times> string) list" where
  "DOMAIN_PATTERNS = [
     (any_word (map liti [''web'', ''website'', ''frontend'', ''react'', ''vue'', ''angular'']),
      ''web development''),
     (any_word (map liti [''mobile'', ''ios'', ''android'', ''app'']), ''mobile development''),
     (any_word (map liti [''api'', ''backend'', ''server'', ''database'']),
      ''backend development''),
     (any_word (map liti [''ml'', ''machine learning'', ''ai'', ''data science'']),
      ''machine learning''),
     (any_word (map liti [''devops'', ''ci/cd'', ''deployment'', ''infrastructure'']),
      ''devops''),
     (any_word (map liti [''marketing'', ''seo'', ''growth'', ''analytics'']), ''marketing''),
     (any_word (map liti [''finance'', ''banking'', ''trading'', ''investment'']), ''finance''),
     (any_word (map liti [''healthcare'', ''medical'', ''health'']), ''healthcare''),
     (any_word [sq [ci CHR ''e'', Opt (chr CHR ''-''), liti ''commerce''], liti ''shopping'',
        liti ''retail''], ''e-commerce''),
     (any_word (map liti [''education'', ''learning'', ''teaching'']), ''education'')]"

text \<open>
  The tail shared by every constraint pattern, \<^verbatim>\<open>(.+?)(?:\.|,|$)\<close>: group 1 is the
  shortest non-empty text without a line terminator that is followed by a full stop, a
  comma or the end of the input.
\<close>

definition clause :: re where
  "clause = Seq (Grp (PlusL dot)) (alts [chr CHR ''.'', chr CHR '','', Eol])"

record constraintPattern =
  pattern :: regex
  extractor :: "string option \<Rightarrow> string res"

text \<open>\<^verbatim>\<open>(m) => m[1].trim()\<close> and \<^verbatim>\<open>(m) => `no ${m[1].trim()}`\<close>.\<close>

definition trimmed :: "string \<Rightarrow> string option \<Rightarrow> string res" where
  "trimmed pre g = (case g of None \<Rightarrow> Inl TypeError | Some t \<Rightarrow> Inr (pre @ trim t))"

definition gi :: "re \<Rightarrow> (string option \<Rightarrow> string res) \<Rightarrow> constraintPattern" where
  "gi r f = \<lparr>pattern = \<lparr>source = r, global = True\<rparr>, extractor = f\<rparr>"

definition HARD_CONSTRAINT_PATTERNS :: "constraintPattern list" where
  "HARD_CONSTRAINT_PATTERNS = [
     gi (Seq (sq [Wb, liti ''must'', PlusG is_space, Opt (Seq (liti ''be'') (PlusG is_space))])
           clause) (trimmed []),
     gi (Seq (sq [Wb, liti ''require'', Opt (ci CHR ''d''),
                  Opt (Seq (PlusG is_space) (liti ''to'')), PlusG is_space])
           clause) (trimmed []),
     gi (Seq (sq [Wb, liti ''has'', PlusG is_space, liti ''to'', PlusG is_space])
           clause) (trimmed []),
     gi (Seq (sq [Wb, liti ''need'', Opt (ci CHR ''s''), PlusG is_space, liti ''to'',
                  PlusG is_space])
           clause) (trimmed []),
     gi (Seq (sq [Wb, liti ''ensure'', PlusG is_space]) clause) (trimmed []),
     gi (Seq (sq [Wb, liti ''no'', PlusG is_space]) clause) (trimmed ''no ''),
     gi (Seq (sq [Wb, liti ''without'', PlusG is_space]) clause) (trimmed ''without '')]"

definition SOFT_CONSTRAINT_PATTERNS :: "constraintPattern list" where
  "SOFT_CONSTRAINT_PATTERNS = [
     gi (Seq (sq [Wb, liti ''preferably'', PlusG is_space]) clause) (trimmed []),
     gi (Seq (sq [Wb, liti ''ideally'', PlusG is_space]) clause) (trimmed []),
     gi (Seq (sq [Wb, liti ''should'', PlusG is_space, Opt (Seq (liti ''be'') (PlusG is_space))])
           clause) (trimmed []),
     gi (Seq (sq [Wb, liti ''would'', PlusG is_space, liti ''be'', PlusG is_space, liti ''nice'',
                  PlusG is_space, Opt (Seq (liti ''to'') (PlusG is_space))])
           clause) (trimmed []),
     gi (Seq (sq [Wb, liti ''if'', PlusG is_space, liti ''possible'',
                  PlusG (\<lambda>c. c = CHR '','' \<or> is_space c)])
           clause) (trimmed []),
     gi (Seq (sq [Wb, liti ''optionally'', PlusG is_space]) clause) (trimmed [])]"

definition LENGTH_PATTERNS :: "(re \<times> len) list" where
  "LENGTH_PATTERNS = [
     (any_word (map liti [''brief'', ''short'', ''concise'', ''quick'', ''simple'']), Short),
     (any_word (map liti [''detailed'', ''comprehensive'', ''thorough'', ''in-depth'',
        ''exhaustive'', ''long'']), Long),
     (any_word (map liti [''moderate'', ''medium'', ''balanced'']), Medium)]"

definition formatPatterns :: "(re \<times> string) list" where
  "formatPatterns = [
     (any_word [lit ''json'', lit ''JSON''], ''JSON''),
     (any_word [liti ''markdown'', liti ''md''], ''Markdown''),
     (any_word [lit ''html'', lit ''HTML''], ''HTML''),
     (any_word [sq [liti ''bullet'', StarG is_space, plural ''point''], plural ''bullet'',
        liti ''list''], ''bullet points''),
     (any_word [liti ''table'', liti ''tabular''], ''table''),
     (any_word [liti ''code'', liti ''snippet''], ''code'')]"

text \<open>The first structure pattern has the flag i only, the second the flags g and i.\<close>

definition structurePatterns :: "regex list" where
  "structurePatterns = [
     \<lparr>source = sq [Wb, liti ''with'', PlusG is_space,
                   Grp (alts [plural ''section'', plural ''part'', plural ''chapter'']), Wb],
      global = False\<rparr>,
     \<lparr>source = sq [Wb, liti ''include'', PlusG is_space, Grp (PlusL dot),
                   alts [chr CHR ''.'', chr CHR '','', liti ''and'', Eol]],
      global = True\<rparr>]"

section \<open>The field extractors\<close>

text \<open>\<^verbatim>\<open>text.split(/[.!?]+/)\<close>: the pieces between the maximal runs of separators.\<close>

definition is_sentence_end :: "char \<Rightarrow> bool" where
  "is_sentence_end c = (c = CHR ''.'' \<or> c = CHR ''!'' \<or> c = CHR ''?'')"

function split_runs :: "(char \<Rightarrow> bool) \<Rightarrow> string \<Rightarrow> string \<Rightarrow> string list" where
  "split_runs P piece [] = [piece]"
| "split_runs P piece (c # cs) =
     (if P c then piece # split_runs P [] (dropWhile P cs)
      else split_runs P (piece @ [c]) cs)"
  by pat_completeness auto
termination
  by (relation "measure (\<lambda>(P, piece, cs). length cs)")
     (auto simp: le_imp_less_Suc length_dropWhile_le)

text \<open>\<^verbatim>\<open>goal.replace(pattern, '')\<close> with a pattern without the flag g.\<close>

definition remove_first :: "re \<Rightarrow> string \<Rightarrow> string" where
  "remove_first r s =
     (case search r (None, s) of None \<Rightarrow> s | Some (b, (p', cs', g)) \<Rightarrow> b @ cs')"

text \<open>\<^verbatim>\<open>goal.charAt(0).toUpperCase() + goal.slice(1)\<close>.\<close>

definition capitalize :: "string \<Rightarrow> ustring" where
  "capitalize goal = (case goal of [] \<Rightarrow> [] | c # cs \<Rightarrow> to_upper c @ units cs)"

text \<open>The five patterns of the calls of \<^verbatim>\<open>replace\<close>, in the order of the calls.\<close>

definition fillerPatterns :: "re list" where
  "fillerPatterns = [
     sq [Bol, ci CHR ''i'', PlusG is_space, liti ''want'', PlusG is_space,
         Opt (Seq (liti ''you'') (PlusG is_space)), liti ''to'', PlusG is_space],
     sq [Bol, liti ''please'', PlusG is_space],
     sq [Bol, liti ''can'', PlusG is_space, liti ''you'', PlusG is_space],
     sq [Bol, liti ''help'', PlusG is_space, liti ''me'', PlusG is_space],
     sq [Bol, ci CHR ''i'', PlusG is_space, liti ''need'', PlusG is_space,
         Opt (Seq (liti ''you'') (PlusG is_space)), liti ''to'', PlusG is_space]]"

definition extractPrimaryGoal :: "string \<Rightarrow> ustring" where
  "extractPrimaryGoal txt =
     (let sentences = filter (\<lambda>s. s \<noteq> []) (map trim (split_runs is_sentence_end [] txt))
      in case sentences of
           goal # _ \<Rightarrow> capitalize (fold remove_first fillerPatterns goal)
         | [] \<Rightarrow> units (trim txt))"

fun first_label :: "(re \<times> 'a) list \<Rightarrow> string \<Rightarrow> 'a option" where
  "first_label [] txt = None"
| "first_label ((r, l) # ps) txt = (if test r txt then Some l else first_label ps txt)"

fun extractTaskType_loop :: "(string \<times> re list) list \<Rightarrow> string \<Rightarrow> string option" where
  "extractTaskType_loop [] txt = None"
| "extractTaskType_loop ((ty, ps) # rest) txt =
     (if list_ex (\<lambda>r. test r txt) ps then Some ty else extractTaskType_loop rest txt)"

definition extractTaskType :: "string \<Rightarrow> string option" where
  "extractTaskType txt = extractTaskType_loop TASK_TYPE_PATTERNS txt"

definition extractAudience :: "string \<Rightarrow> string option" where
  "extractAudience txt = first_label AUDIENCE_PATTERNS txt"

definition extractDomain :: "string \<Rightarrow> string option" where
  "extractDomain txt = first_label DOMAIN_PATTERNS txt"

text \<open>
  The body of the loop over the matches in \<^verbatim>\<open>extractConstraints\<close>; the state is the
  list built so far and the set \<^verbatim>\<open>seen\<close>.
\<close>

definition keep :: "ctype \<Rightarrow> (string option \<Rightarrow> string res) \<Rightarrow> string option \<Rightarrow>
    constraint list \<times> string set \<Rightarrow> (constraint list \<times> string set) res" where
  "keep ty ex g acc =
     (case ex g of
        Inl e \<Rightarrow> Inl e
      | Inr constraintText \<Rightarrow>
          Inr (if length constraintText > 3 \<and> length constraintText < 100
                 \<and> toLowerCase constraintText \<notin> snd acc
               then (fst acc @ [\<lparr>constraint_text = constraintText, constraint_type = ty\<rparr>],
                     insert (toLowerCase constraintText) (snd acc))
               else acc))"

fun constraints_loop :: "string \<Rightarrow> constraintPattern list \<Rightarrow> ctype \<Rightarrow>
    constraint list \<times> string set \<Rightarrow> (constraint list \<times> string set) res" where
  "constraints_loop txt [] ty acc = Inr acc"
| "constraints_loop txt (cp # cps) ty acc =
     (case exec_while (pattern cp) txt (keep ty (extractor cp)) acc of
        Inl e \<Rightarrow> Inl e
      | Inr acc' \<Rightarrow> constraints_loop txt cps ty acc')"

definition extractConstraints :: "string \<Rightarrow> constraintPattern list \<Rightarrow> ctype \<Rightarrow>
    constraint list res" where
  "extractConstraints txt patterns ty =
     (case constraints_loop txt patterns ty ([], {}) of
        Inl e \<Rightarrow> Inl e
      | Inr acc \<Rightarrow> Inr (fst acc))"

text \<open>The body of the loop over the matches of a structure pattern.\<close>

definition push_structure :: "string option \<Rightarrow> string list \<Rightarrow> string list res" where
  "push_structure g structures =
     Inr (if truthy g then structures @ [trim (the g)] else structures)"

fun structures_loop :: "string \<Rightarrow> regex list \<Rightarrow> string list \<Rightarrow> string list res" where
  "structures_loop txt [] structures = Inr structures"
| "structures_loop txt (rx # rxs) structures =
     (case exec_while rx txt push_structure structures of
        Inl e \<Rightarrow> Inl e
      | Inr structures' \<Rightarrow> structures_loop txt rxs structures')"

definition extractOutputExpectations :: "string \<Rightarrow> outputExpectation option res" where
  "extractOutputExpectations txt =
     (let len = first_label LENGTH_PATTERNS txt;
          fmt = first_label formatPatterns txt
      in case structures_loop txt structurePatterns [] of
           Inl e \<Rightarrow> Inl e
         | Inr structures \<Rightarrow>
             Inr (if len \<noteq> None \<or> fmt \<noteq> None \<or> length structures > 0
                  then Some \<lparr>oe_length = Some (case len of None \<Rightarrow> AnyLength | Some l \<Rightarrow> l),
                             format = fmt,
                             structure = (if length structures > 0 then Some structures
                                          else None)\<rparr>
                  else None))"

record parsedIntent =
  parsed_primaryGoal :: ustring
  parsed_taskType :: "string option"
  parsed_audience :: "string option"
  parsed_domain :: "string option"
  hardConstraints :: "constraint list"
  softConstraints :: "constraint list"
  parsed_outputExpectations :: "outputExpectation option"
  parsed_assumptions :: "string list"

definition generateAssumptions :: "parsedIntent \<Rightarrow> string list" where
  "generateAssumptions parsed =
     (if \<not> truthy (parsed_audience parsed)
      then [''Assuming general audience with moderate technical knowledge''] else [])
     @ (if (case parsed_outputExpectations parsed of None \<Rightarrow> True
            | Some oe \<Rightarrow> oe_length oe = None)
        then [''Assuming medium-length output is acceptable''] else [])
     @ (if \<not> truthy (parsed_domain parsed)
        then [''No specific domain context detected''] else [])"

definition parseIntent :: "string \<Rightarrow> parsedIntent res" where
  "parseIntent txt =
     (let goal = extractPrimaryGoal txt;
          ttype = extractTaskType txt;
          aud = extractAudience txt;
          dom = extractDomain txt
      in case extractConstraints txt HARD_CONSTRAINT_PATTERNS Hard of
           Inl e \<Rightarrow> Inl e
         | Inr hards \<Rightarrow>
        (case extractConstraints txt SOFT_CONSTRAINT_PATTERNS Soft of
           Inl e \<Rightarrow> Inl e
         | Inr softs \<Rightarrow>
        (case extractOutputExpectations txt of
           Inl e \<Rightarrow> Inl e
         | Inr expectations \<Rightarrow>
             (let parsed = \<lparr>parsed_primaryGoal = goal, parsed_taskType = ttype,
                    parsed_audience = aud, parsed_domain = dom,
                    hardConstraints = hards, softConstraints = softs,
                    parsed_outputExpectations = expectations,
                    parsed_assumptions = []\<rparr>
              in Inr (parsed\<lparr>parsed_assumptions := generateAssumptions parsed\<rparr>)))))"

section \<open>The notation renderer\<close>

text \<open>The array \<^verbatim>\<open>lines\<close> of \<^verbatim>\<open>generateIRL\<close>, section by section.\<close>

definition output_lines :: "outputExpectation option \<Rightarrow> string list" where
  "output_lines x =
     (case x of
        None \<Rightarrow> []
      | Some oe \<Rightarrow>
          [[], ''@output'']
          @ (case oe_length oe of None \<Rightarrow> [] | Some l \<Rightarrow> [''- Length: '' @ len_str l])
          @ (if truthy (format oe) then [''- Format: '' @ the (format oe)] else [])
          @ (case structure oe of
               None \<Rightarrow> []
             | Some st \<Rightarrow> if length st > 0 then [''- Structure: '' @ join '', '' st] else []))"

definition irl_lines :: "intent \<Rightarrow> ustring list" where
  "irl_lines i =
     [units ''@goal '' @ primaryGoal i]
     @ map units (
     (if truthy (taskType i) then [''@task '' @ the (taskType i)] else [])
     @ (if truthy (audience i) then [''@audience '' @ the (audience i)] else [])
     @ (if truthy (domain i) then [''@domain '' @ the (domain i)] else [])
     @ (if length (hard (constraints i)) > 0
        then [[], ''@constraints hard'']
             @ map (\<lambda>c. ''- '' @ constraint_text c) (hard (constraints i))
        else [])
     @ (if length (soft (constraints i)) > 0
        then [[], ''@preferences'']
             @ map (\<lambda>c. ''- '' @ constraint_text c) (soft (constraints i))
        else [])
     @ output_lines (outputExpectations i)
     @ (if length (conflicts i) > 0
        then [[], ''@conflicts'']
             @ map (\<lambda>c. ''- '' @ (if severity c = Blocking then ''[BLOCKING]''
                                   else ''[WARNING]'') @ '' '' @ description c) (conflicts i)
        else [])
     @ (if length (assumptions i) > 0
        then [[], ''@assumptions''] @ map (\<lambda>a. ''- '' @ a) (assumptions i)
        else []))"

definition generateIRL :: "intent \<Rightarrow> ustring" where
  "generateIRL i = join [Latin1 (CHR 0x0A)] (irl_lines i)"

section \<open>The instruction compiler\<close>

definition lengthMap :: "len \<Rightarrow> string" where
  "lengthMap l = (case l of Short \<Rightarrow> ''Keep the response concise''
                  | Medium \<Rightarrow> ''Provide a balanced, moderate-length response''
                  | Long \<Rightarrow> ''Provide a comprehensive, detailed response''
                  | AnyLength \<Rightarrow> [])"

definition outputParts :: "outputExpectation \<Rightarrow> string list" where
  "outputParts oe =
     (case oe_length oe of
        None \<Rightarrow> []
      | Some l \<Rightarrow> if l \<noteq> AnyLength then [lengthMap l] else [])
     @ (if truthy (format oe) then [''Format the output as '' @ the (format oe)] else [])
     @ (case structure oe of
          None \<Rightarrow> []
        | Some st \<Rightarrow> if length st > 0 then [''Include: '' @ join '', '' st] else [])"

definition compile_sections :: "intent \<Rightarrow> ustring list" where
  "compile_sections i =
     (let contextParts =
            (if truthy (audience i) then [''Target audience: '' @ the (audience i)] else [])
            @ (if truthy (domain i) then [''Domain: '' @ the (domain i)] else []);
          allConstraints = map constraint_text (hard (constraints i))
                           @ map constraint_text (soft (constraints i))
      in [primaryGoal i]
         @ map units (
           (if length contextParts > 0 then [[], join ''. '' contextParts @ ''.''] else [])
         @ (if length allConstraints > 0
            then [[], ''Requirements:''] @ map (\<lambda>c. ''- '' @ c) allConstraints else [])
         @ (case outputExpectations i of
              None \<Rightarrow> []
            | Some oe \<Rightarrow>
                if length (outputParts oe) > 0
                then [[], join ''. '' (outputParts oe) @ ''.''] else [])))"

definition compilePrompt :: "intent \<Rightarrow> ustring" where
  "compilePrompt i = trim_units (join [Latin1 (CHR 0x0A)] (compile_sections i))"

section \<open>The entry point\<close>

definition normalize :: "string \<Rightarrow> normalizeResponse res" where
  "normalize input =
     (case parseIntent input of
        Inl e \<Rightarrow> Inl e
      | Inr parsed \<Rightarrow>
          (let found = detectConflicts input;
               blocking = list_ex (\<lambda>c. severity c = Blocking) found;
               i = \<lparr>version = SCHEMA_VERSION,
                    primaryGoal = parsed_primaryGoal parsed,
                    taskType = parsed_taskType parsed,
                    audience = parsed_audience parsed,
                    domain = parsed_domain parsed,
                    constraints = \<lparr>hard = hardConstraints parsed,
                                   soft = softConstraints parsed\<rparr>,
                    outputExpectations = parsed_outputExpectations parsed,
                    conflicts = found,
                    requiresClarification = blocking,
                    rawInput = input,
                    assumptions = parsed_assumptions parsed\<rparr>
           in Inr \<lparr>response_intent = i, irl = generateIRL i, compiled = compilePrompt i\<rparr>))"

section \<open>Notions used in the proofs\<close>

text \<open>The least number of characters a match of a pattern takes.\<close>

fun minlen :: "re \<Rightarrow> nat" where
  "minlen Eps = 0"
| "minlen (One P) = 1"
| "minlen (Seq a b) = minlen a + minlen b"
| "minlen (Alt a b) = min (minlen a) (minlen b)"
| "minlen (PlusG P) = 1"
| "minlen (PlusL P) = 1"
| "minlen (StarG P) = 0"
| "minlen (Grp a) = minlen a"
| "minlen Wb = 0"
| "minlen Bol = 0"
| "minlen Eol = 0"

text \<open>
  The invariant of the loops of \<^verbatim>\<open>extractConstraints\<close>: every entry passed the length
  test and has the type of the call, no two entries agree up to case, and \<^verbatim>\<open>seen\<close>
  holds the lower-cased texts of the entries.
\<close>

definition kept :: "ctype \<Rightarrow> constraint list \<times> string set \<Rightarrow> bool" where
  "kept ty acc =
     ((\<forall>c \<in> set (fst acc). 3 < length (constraint_text c) \<and> length (constraint_text c) < 100
          \<and> constraint_type c = ty)
      \<and> distinct (map (\<lambda>c. toLowerCase (constraint_text c)) (fst acc))
      \<and> snd acc = set (map (\<lambda>c. toLowerCase (constraint_text c)) (fst acc)))"

text \<open>
  The groups of all the successive matches of a pattern: each search starts where the
  match before it ended.
\<close>

function all_groups :: "re \<Rightarrow> char option \<times> string \<Rightarrow> string option list" where
  "all_groups r (p, cs) =
     (case search r (p, cs) of
        None \<Rightarrow> []
      | Some (b, (p', cs', g)) \<Rightarrow>
          g # (if length cs' < length cs then all_groups r (p', cs') else []))"
  by pat_completeness auto
termination
  by (relation "measure (\<lambda>(r, (p, cs)). length cs)") auto

declare all_groups.simps [simp del]

text \<open>The texts that the extractor of a pattern makes of the matches, and those of a table.\<close>

definition texts_of :: "constraintPattern \<Rightarrow> string \<Rightarrow> string list" where
  "texts_of cp s =
     concat (map (\<lambda>g. case extractor cp g of Inl e \<Rightarrow> [] | Inr t \<Rightarrow> [t])
               (all_groups (source (pattern cp)) (None, s)))"

definition all_texts :: "constraintPattern list \<Rightarrow> string \<Rightarrow> string list" where
  "all_texts cps s = concat (map (\<lambda>cp. texts_of cp s) cps)"

text \<open>Of the texts that agree up to case the first one stays.\<close>

function first_kept :: "string list \<Rightarrow> string list" where
  "first_kept [] = []"
| "first_kept (t # ts) = t # first_kept (filter (\<lambda>u. toLowerCase u \<noteq> toLowerCase t) ts)"
  by pat_completeness auto
termination
  by (relation "measure length") (auto simp: le_imp_less_Suc)

text \<open>The step of \<^verbatim>\<open>extractConstraints\<close> on one text.\<close>

definition add_text :: "ctype \<Rightarrow> string \<Rightarrow> constraint list \<times> string set \<Rightarrow>
    constraint list \<times> string set" where
  "add_text ty t acc =
     (if length t > 3 \<and> length t < 100 \<and> toLowerCase t \<notin> snd acc
      then (fst acc @ [\<lparr>constraint_text = t, constraint_type = ty\<rparr>],
            insert (toLowerCase t) (snd acc))
      else acc)"

text \<open>The end of a clause, and the matches of a clause whose group starts with \<open>pre\<close>.\<close>

definition clause_end :: re where
  "clause_end = alts [chr CHR ''.'', chr CHR '','', Eol]"

definition clause_from :: "string \<Rightarrow> pos \<Rightarrow> pos list" where
  "clause_from pre st =
     (case st of (p, cs, g) \<Rightarrow>
        concat (map (matches clause_end)
          (map (\<lambda>(p', cs', g'). (p', cs', Some (pre @ take (length cs - length cs') cs)))
             (run dot (p, cs, g)))))"

text \<open>
  The notion of the specification for the conflict detector: a term occurs in a text in some
  casing at some position.
\<close>

definition occurs_ci :: "string \<Rightarrow> string \<Rightarrow> bool" where
  "occurs_ci t s =
     list_ex (\<lambda>i. map to_lower (take (length t) (drop i s)) = map to_lower t)
       [0..<Suc (length s)]"

text \<open>The two structure patterns.\<close>

definition with_sections :: re where
  "with_sections = sq [Wb, liti ''with'', PlusG is_space,
                       Grp (alts [plural ''section'', plural ''part'', plural ''chapter'']), Wb]"

definition include_clause :: re where
  "include_clause = sq [Wb, liti ''include'', PlusG is_space, Grp (PlusL dot),
                        alts [chr CHR ''.'', chr CHR '','', liti ''and'', Eol]]"

text \<open>
  The notions of the specification for the primary goal. A filler phrase is a list of words;
  a word is looked for at the start of the text, up to case, and has to be followed by
  white space, which is skipped with it; an optional word may be missing.
\<close>

datatype item = Word string | Optional string

text \<open>The rest of a text after a word at its start, in any casing.\<close>

fun after_word :: "string \<Rightarrow> string \<Rightarrow> string option" where
  "after_word [] s = Some s"
| "after_word (w # ws) [] = None"
| "after_word (w # ws) (c # cs) = (if to_lower c = to_lower w then after_word ws cs else None)"

text \<open>The rest of a text after the white space at its start, of which there is some.\<close>

definition after_space :: "string \<Rightarrow> string option" where
  "after_space s =
     (case s of [] \<Rightarrow> None | c # cs \<Rightarrow> if is_space c then Some (dropWhile is_space cs) else None)"

text \<open>
  The rest of a text after a phrase at its start. An optional word is taken when the rest of
  the phrase follows it, and left out otherwise.
\<close>

fun after_items :: "item list \<Rightarrow> string \<Rightarrow> string option" where
  "after_items [] s = Some s"
| "after_items (Word w # its) s =
     (case after_word w s of
        None \<Rightarrow> None
      | Some t \<Rightarrow> (case after_space t of None \<Rightarrow> None | Some u \<Rightarrow> after_items its u))"
| "after_items (Optional w # its) s =
     (case (case after_word w s of
              None \<Rightarrow> None
            | Some t \<Rightarrow> (case after_space t of None \<Rightarrow> None | Some u \<Rightarrow> after_items its u)) of
        Some r \<Rightarrow> Some r
      | None \<Rightarrow> after_items its s)"

text \<open>
  The five filler phrases in the order in which they are looked for: I want (you) to,
  please, can you, help me, I need (you) to.
\<close>

definition FILLER_PHRASES :: "item list list" where
  "FILLER_PHRASES = [
     [Word ''i'', Word ''want'', Optional ''you'', Word ''to''],
     [Word ''please''],
     [Word ''can'', Word ''you''],
     [Word ''help'', Word ''me''],
     [Word ''i'', Word ''need'', Optional ''you'', Word ''to'']]"

text \<open>A phrase at the start of a text is dropped; a text that does not start with it stays.\<close>

definition drop_phrase :: "item list \<Rightarrow> string \<Rightarrow> string" where
  "drop_phrase ph s = (case after_items ph s of None \<Rightarrow> s | Some rest \<Rightarrow> rest)"

text \<open>
  A text is blank when it has white space and sentence ends only. The first sentence \<open>g\<close> of
  a text \<open>lead @ g @ ws @ tail\<close>: before it there are only white space and sentence ends, it
  starts and ends with a character that is not white space, it has no sentence end, and
  after it come white space and then a sentence end or the end of the text.
\<close>

definition blank :: "string \<Rightarrow> bool" where
  "blank s = list_all (\<lambda>c. is_space c \<or> is_sentence_end c) s"

definition first_sentence :: "string \<Rightarrow> string \<Rightarrow> string \<Rightarrow> string \<Rightarrow> bool" where
  "first_sentence lead g ws tail =
     (blank lead
      \<and> g \<noteq> [] \<and> \<not> is_space (hd g) \<and> \<not> is_space (last g)
      \<and> list_all (\<lambda>c. \<not> is_sentence_end c) g
      \<and> list_all is_space ws
      \<and> (case tail of [] \<Rightarrow> True | c # _ \<Rightarrow> is_sentence_end c))"

text \<open>
  The ends of the matches of a pattern in a text, in the order in which the matcher tries
  them, for a pattern without anchor and without word boundary.
\<close>

fun runs :: "(char \<Rightarrow> bool) \<Rightarrow> string \<Rightarrow> string list" where
  "runs P [] = []"
| "runs P (c # cs) = (if P c then cs # runs P cs else [])"

fun rests :: "re \<Rightarrow> string \<Rightarrow> string list" where
  "rests Eps s = [s]"
| "rests (One P) [] = []"
| "rests (One P) (c # cs) = (if P c then [cs] else [])"
| "rests (Seq a b) s = concat (map (rests b) (rests a s))"
| "rests (Alt a b) s = rests a s @ rests b s"
| "rests (PlusG P) s = rev (runs P s)"
| "rests (PlusL P) s = runs P s"
| "rests (StarG P) s = rev (runs P s) @ [s]"
| "rests (Grp a) s = rests a s"
| "rests Wb s = [s]"
| "rests Bol s = [s]"
| "rests Eol s = (if s = [] then [s] else [])"

fun pfree :: "re \<Rightarrow> bool" where
  "pfree (Seq a b) = (pfree a \<and> pfree b)"
| "pfree (Alt a b) = (pfree a \<and> pfree b)"
| "pfree (Grp a) = pfree a"
| "pfree Wb = False"
| "pfree Bol = False"
| "pfree r = True"

text \<open>The first element of a list, if there is one.\<close>

definition hdo :: "'a list \<Rightarrow> 'a option" where
  "hdo xs = (case xs of [] \<Rightarrow> None | x # _ \<Rightarrow> Some x)"

text \<open>A pattern that does not match at a white space character.\<close>

definition rejects_space :: "re \<Rightarrow> bool" where
  "rejects_space r = (\<forall>c cs. is_space c \<longrightarrow> rests r (c # cs) = [])"

text \<open>The responses to the inputs that the theorems are tried on.\<close>

definition example_fast :: normalizeResponse where
  "example_fast =
     \<lparr>response_intent =
        \<lparr>version = ''0.1.0'', primaryGoal = units ''Must be fast, should be fast'',
         taskType = None, audience = None, domain = None,
         constraints =
           \<lparr>hard = [\<lparr>constraint_text = ''fast'', constraint_type = Hard\<rparr>],
            soft = [\<lparr>constraint_text = ''fast'', constraint_type = Soft\<rparr>]\<rparr>,
         outputExpectations = None, conflicts = [], requiresClarification = False,
         rawInput = ''must be fast, should be fast'',
         assumptions =
           [''Assuming general audience with moderate technical knowledge'',
            ''Assuming medium-length output is acceptable'',
            ''No specific domain context detected'']\<rparr>,
      irl = units (concat [''@goal Must be fast, should be fast'', [CHR 0x0A], [CHR 0x0A],
          ''@constraints hard'', [CHR 0x0A], ''- fast'', [CHR 0x0A], [CHR 0x0A],
          ''@preferences'', [CHR 0x0A], ''- fast'', [CHR 0x0A], [CHR 0x0A],
          ''@assumptions'', [CHR 0x0A],
          ''- Assuming general audience with moderate technical knowledge'', [CHR 0x0A],
          ''- Assuming medium-length output is acceptable'', [CHR 0x0A],
          ''- No specific domain context detected'']),
      compiled = units (concat [''Must be fast, should be fast'', [CHR 0x0A], [CHR 0x0A],
          ''Requirements:'', [CHR 0x0A], ''- fast'', [CHR 0x0A], ''- fast''])\<rparr>"

definition example_blocking :: normalizeResponse where
  "example_blocking =
     \<lparr>response_intent =
        \<lparr>version = ''0.1.0'', primaryGoal = units ''Minimal, feature-rich'',
         taskType = None, audience = None, domain = None,
         constraints = \<lparr>hard = [], soft = []\<rparr>,
         outputExpectations = None,
         conflicts =
           [\<lparr>conflict_type = GoalKind,
             description = ''Minimal design conflicts with feature-rich requirements'',
             severity = Blocking, terms = (''minimal'', ''feature-rich'')\<rparr>],
         requiresClarification = True,
         rawInput = ''minimal, feature-rich'',
         assumptions =
           [''Assuming general audience with moderate technical knowledge'',
            ''Assuming medium-length output is acceptable'',
            ''No specific domain context detected'']\<rparr>,
      irl = units (concat [''@goal Minimal, feature-rich'', [CHR 0x0A], [CHR 0x0A],
          ''@conflicts'', [CHR 0x0A],
          ''- [BLOCKING] Minimal design conflicts with feature-rich requirements'',
          [CHR 0x0A], [CHR 0x0A],
          ''@assumptions'', [CHR 0x0A],
          ''- Assuming general audience with moderate technical knowledge'', [CHR 0x0A],
          ''- Assuming medium-length output is acceptable'', [CHR 0x0A],
          ''- No specific domain context detected'']),
      compiled = units ''Minimal, feature-rich''\<rparr>"

definition example_json :: normalizeResponse where
  "example_json =
     \<lparr>response_intent =
        \<lparr>version = ''0.1.0'', primaryGoal = units ''Json'',
         taskType = None, audience = None, domain = None,
         constraints = \<lparr>hard = [], soft = []\<rparr>,
         outputExpectations =
           Some \<lparr>oe_length = Some AnyLength, format = Some ''JSON'', structure = None\<rparr>,
         conflicts = [], requiresClarification = False,
         rawInput = ''json'',
         assumptions =
           [''Assuming general audience with moderate technical knowledge'',
            ''No specific domain context detected'']\<rparr>,
      irl = units (concat [''@goal Json'', [CHR 0x0A], [CHR 0x0A],
          ''@output'', [CHR 0x0A], ''- Length: any'', [CHR 0x0A], ''- Format: JSON'',
          [CHR 0x0A], [CHR 0x0A],
          ''@assumptions'', [CHR 0x0A],
          ''- Assuming general audience with moderate technical knowledge'', [CHR 0x0A],
          ''- No specific domain context detected'']),
      compiled = units (concat [''Json'', [CHR 0x0A], [CHR 0x0A], ''Format the output as JSON.''])\<rparr>"

section \<open>Evaluating the character classes\<close>

text \<open>
  On a character given by its eight bits (least significant first) the classes are
  decided without arithmetic: the letters are the codes whose low five bits are between
  1 and 26, with the upper three bits 010 (upper case) or 011 (lower case).
\<close>

lemma is_upper_Char [code]:
  "is_upper (Char b0 b1 b2 b3 b4 b5 b6 b7) =
     (\<not> b7 \<and> b6 \<and> \<not> b5 \<and> (b0 \<or> b1 \<or> b2 \<or> b3 \<or> b4)
      \<and> \<not> (b4 \<and> b3 \<and> (b2 \<or> (b1 \<and> b0))))"
  by (cases b0; cases b1; cases b2; cases b3; cases b4; cases b5; cases b6; cases b7;
      simp add: is_upper_def)

lemma is_lower_Char [code]:
  "is_lower (Char b0 b1 b2 b3 b4 b5 b6 b7) =
     (\<not> b7 \<and> b6 \<and> b5 \<and> (b0 \<or> b1 \<or> b2 \<or> b3 \<or> b4)
      \<and> \<not> (b4 \<and> b3 \<and> (b2 \<or> (b1 \<and> b0))))"
  by (cases b0; cases b1; cases b2; cases b3; cases b4; cases b5; cases b6; cases b7;
      simp add: is_lower_def)

lemma is_digit_Char [code]:
  "is_digit (Char b0 b1 b2 b3 b4 b5 b6 b7) =
     (\<not> b7 \<and> \<not> b6 \<and> b5 \<and> b4 \<and> (\<not> b3 \<or> (\<not> b2 \<and> \<not> b1)))"
  by (cases b0; cases b1; cases b2; cases b3; cases b4; cases b5; cases b6; cases b7;
      simp add: is_digit_def)

lemma has_lower_Char [code]:
  "has_lower (Char b0 b1 b2 b3 b4 b5 b6 b7) =
     (b6 \<and> \<not> b5 \<and>
      (if b7 then \<not> (b0 \<and> b1 \<and> b2 \<and> b4)
       else (b0 \<or> b1 \<or> b2 \<or> b3 \<or> b4) \<and> \<not> (b4 \<and> b3 \<and> (b2 \<or> (b1 \<and> b0)))))"
  by (cases b0; cases b1; cases b2; cases b3; cases b4; cases b5; cases b6; cases b7;
      simp add: has_lower_def)

lemma has_upper_Char [code]:
  "has_upper (Char b0 b1 b2 b3 b4 b5 b6 b7) =
     (b6 \<and> b5 \<and>
      (if b7 then \<not> (b0 \<and> b1 \<and> b2 \<and> b4)
       else (b0 \<or> b1 \<or> b2 \<or> b3 \<or> b4) \<and> \<not> (b4 \<and> b3 \<and> (b2 \<or> (b1 \<and> b0)))))"
  by (cases b0; cases b1; cases b2; cases b3; cases b4; cases b5; cases b6; cases b7;
      simp add: has_upper_def)

lemma to_lower_Char [code]:
  "to_lower (Char b0 b1 b2 b3 b4 b5 b6 b7) =
     (if has_lower (Char b0 b1 b2 b3 b4 b5 b6 b7) then Char b0 b1 b2 b3 b4 True b6 b7
      else Char b0 b1 b2 b3 b4 b5 b6 b7)"
  by (cases b0; cases b1; cases b2; cases b3; cases b4; cases b5; cases b6; cases b7;
      simp add: to_lower_def has_lower_def char_of_def bit_Suc_0_iff)

lemma to_upper_Char [code]:
  "to_upper (Char b0 b1 b2 b3 b4 b5 b6 b7) =
     (if has_upper (Char b0 b1 b2 b3 b4 b5 b6 b7)
      then [Latin1 (Char b0 b1 b2 b3 b4 False b6 b7)]
      else if b0 \<and> b1 \<and> b2 \<and> b3 \<and> b4 \<and> \<not> b5 \<and> b6 \<and> b7 then units ''SS''
      else if b0 \<and> \<not> b1 \<and> b2 \<and> \<not> b3 \<and> b4 \<and> b5 \<and> \<not> b6 \<and> b7 then [Above 0x39C]
      else if b0 \<and> b1 \<and> b2 \<and> b3 \<and> b4 \<and> b5 \<and> b6 \<and> b7 then [Above 0x178]
      else [Latin1 (Char b0 b1 b2 b3 b4 b5 b6 b7)])"
  by (cases b0; cases b1; cases b2; cases b3; cases b4; cases b5; cases b6; cases b7;
      simp add: to_upper_def has_upper_def char_of_def bit_Suc_0_iff)

section \<open>Properties of the matcher\<close>

lemma run_consumes:
  "(p', cs', g') \<in> set (run P (p, cs, g)) \<Longrightarrow>
     \<exists>w. cs = w @ cs' \<and> w \<noteq> [] \<and> (\<forall>c \<in> set w. P c) \<and> g' = g"
proof (induction cs arbitrary: p)
  case Nil
  then show ?case by simp
next
  case (Cons c cs)
  show ?case
  proof (cases "P c")
    case False
    with Cons.prems show ?thesis by simp
  next
    case True
    with Cons.prems consider "(p', cs', g') = (Some c, cs, g)"
      | "(p', cs', g') \<in> set (run P (Some c, cs, g))" by auto
    then show ?thesis
    proof cases
      case 1
      with True show ?thesis by auto
    next
      case 2
      from Cons.IH [OF 2] obtain w where "cs = w @ cs'" "\<forall>c \<in> set w. P c" "g' = g" by auto
      with True have "c # cs = (c # w) @ cs' \<and> c # w \<noteq> [] \<and> (\<forall>x \<in> set (c # w). P x) \<and> g' = g"
        by simp
      then show ?thesis by blast
    qed
  qed
qed

lemma matches_consumes:
  "(p', cs', g') \<in> set (matches r (p, cs, g)) \<Longrightarrow> \<exists>w. cs = w @ cs' \<and> minlen r \<le> length w"
proof (induction r arbitrary: p cs g p' cs' g')
  case Eps
  then show ?case by simp
next
  case (One P)
  then show ?case by (cases cs) (auto split: if_splits)
next
  case (Seq a b)
  from Seq.prems obtain p1 cs1 g1 where
    a: "(p1, cs1, g1) \<in> set (matches a (p, cs, g))" and
    b: "(p', cs', g') \<in> set (matches b (p1, cs1, g1))" by auto
  from Seq.IH(1) [OF a] obtain w1 where w1: "cs = w1 @ cs1" "minlen a \<le> length w1" by auto
  from Seq.IH(2) [OF b] obtain w2 where w2: "cs1 = w2 @ cs'" "minlen b \<le> length w2" by auto
  from w1 w2 have "cs = (w1 @ w2) @ cs' \<and> minlen (Seq a b) \<le> length (w1 @ w2)" by simp
  then show ?case by blast
next
  case (Alt a b)
  from Alt.prems consider "(p', cs', g') \<in> set (matches a (p, cs, g))"
    | "(p', cs', g') \<in> set (matches b (p, cs, g))" by auto
  then show ?case
  proof cases
    case 1
    from Alt.IH(1) [OF 1] show ?thesis by auto
  next
    case 2
    from Alt.IH(2) [OF 2] show ?thesis by auto
  qed
next
  case (PlusG P)
  then have "(p', cs', g') \<in> set (run P (p, cs, g))" by simp
  from run_consumes [OF this] obtain w where "cs = w @ cs'" "w \<noteq> []" by auto
  then have "cs = w @ cs' \<and> minlen (PlusG P) \<le> length w" by (cases w) auto
  then show ?case by blast
next
  case (PlusL P)
  then have "(p', cs', g') \<in> set (run P (p, cs, g))" by simp
  from run_consumes [OF this] obtain w where "cs = w @ cs'" "w \<noteq> []" by auto
  then have "cs = w @ cs' \<and> minlen (PlusL P) \<le> length w" by (cases w) auto
  then show ?case by blast
next
  case (StarG P)
  then consider "(p', cs', g') \<in> set (run P (p, cs, g))" | "cs' = cs" by auto
  then show ?case
  proof cases
    case 1
    from run_consumes [OF 1] show ?thesis by auto
  next
    case 2
    then show ?thesis by simp
  qed
next
  case (Grp a)
  from Grp.prems obtain g1 where "(p', cs', g1) \<in> set (matches a (p, cs, g))" by auto
  from Grp.IH [OF this] show ?case by simp
next
  case Wb
  then show ?case by (auto split: if_splits)
next
  case Bol
  then show ?case by (auto split: if_splits)
next
  case Eol
  then show ?case by (auto split: if_splits)
qed

lemma search_Some:
  "search r (p, cs) = Some (b, st') \<Longrightarrow>
     \<exists>p0 cs0 rest. cs = b @ cs0 \<and> matches r (p0, cs0, None) = st' # rest"
proof (induction cs arbitrary: p b)
  case Nil
  then show ?case by (auto split: list.splits)
next
  case (Cons c cs)
  show ?case
  proof (cases "matches r (p, c # cs, None)")
    case (Cons st rest)
    with Cons.prems show ?thesis by auto
  next
    case Nil
    with Cons.prems obtain b' where s: "search r (Some c, cs) = Some (b', st')" and b: "b = c # b'"
      by (auto split: option.splits)
    from Cons.IH [OF s] b show ?thesis by auto
  qed
qed

lemma matches_clause: "matches clause (p, cs, g) = clause_from [] (p, cs, g)"
  by (simp add: clause_def clause_from_def clause_end_def)

lemma matches_clause_end:
  "matches clause_end (p, cs, g) =
     (case cs of
        [] \<Rightarrow> [(p, [], g)]
      | x # xs \<Rightarrow> if x = CHR ''.'' \<or> x = CHR '','' then [(Some x, xs, g)] else [])"
  by (cases cs) (auto simp: clause_end_def chr_def)

lemma clause_from_Nil: "clause_from pre (p, [], g) = []"
  by (simp add: clause_from_def)

lemma clause_from_Cons:
  "clause_from pre (p, c # cs, g) =
     (if dot c
      then matches clause_end (Some c, cs, Some (pre @ [c])) @ clause_from (pre @ [c]) (Some c, cs, g)
      else [])"
proof (cases "dot c")
  case False
  then show ?thesis by (simp add: clause_from_def)
next
  case True
  let ?F = "\<lambda>(p', cs', g'). (p', cs', Some (pre @ take (length (c # cs) - length cs') (c # cs)))"
  let ?G = "\<lambda>(p', cs', g'). (p', cs', Some ((pre @ [c]) @ take (length cs - length cs') cs))"
  have eq: "map ?F (run dot (Some c, cs, g)) = map ?G (run dot (Some c, cs, g))"
  proof (rule map_cong [OF refl])
    fix x assume x: "x \<in> set (run dot (Some c, cs, g))"
    obtain p' cs' g' where x': "x = (p', cs', g')" by (cases x) auto
    from run_consumes [OF x [unfolded x']] obtain w where "cs = w @ cs'" by auto
    then have "Suc (length cs) - length cs' = Suc (length cs - length cs')" by simp
    then show "?F x = ?G x" by (simp add: x')
  qed
  from True have "clause_from pre (p, c # cs, g) =
      concat (map (matches clause_end) (map ?F ((Some c, cs, g) # run dot (Some c, cs, g))))"
    by (simp only: clause_from_def prod.case run.simps if_True)
  also have "\<dots> = matches clause_end (?F (Some c, cs, g))
      @ concat (map (matches clause_end) (map ?F (run dot (Some c, cs, g))))"
    by (simp only: list.map concat.simps)
  also have "?F (Some c, cs, g) = (Some c, cs, Some (pre @ [c]))" by simp
  also have "concat (map (matches clause_end) (map ?F (run dot (Some c, cs, g))))
      = clause_from (pre @ [c]) (Some c, cs, g)"
    by (simp only: eq clause_from_def prod.case)
  finally show ?thesis using True by simp
qed

lemma clause_end_head:
  assumes "matches clause_end (Some c, cs, Some u) = (p', cs', g') # ms"
  shows "\<exists>t. cs = t @ cs' \<and> g' = Some u \<and> (t = ''.'' \<or> t = '','' \<or> (t = [] \<and> cs' = []))"
proof (cases cs)
  case Nil
  with assms show ?thesis by (simp add: matches_clause_end)
next
  case (Cons x xs)
  with assms have "(x = CHR ''.'' \<or> x = CHR '','') \<and> cs' = xs \<and> g' = Some u"
    by (simp add: matches_clause_end split: if_splits)
  with Cons have "cs = [x] @ cs' \<and> g' = Some u \<and> ([x] = ''.'' \<or> [x] = '','')" by auto
  then show ?thesis by blast
qed

lemma clause_end_none:
  assumes "matches clause_end (Some c, cs, Some u) = []"
  shows "cs \<noteq> [] \<and> hd cs \<noteq> CHR ''.'' \<and> hd cs \<noteq> CHR '',''"
  using assms by (cases cs) (simp_all add: matches_clause_end split: if_splits)

lemma clause_from_head:
  "clause_from pre (p, cs, g) = (p', cs', g') # rest \<Longrightarrow>
     \<exists>v t. cs = v @ t @ cs' \<and> g' = Some (pre @ v) \<and> v \<noteq> []
       \<and> (\<forall>c \<in> set v. \<not> is_line_terminator c)
       \<and> (\<forall>c \<in> set (tl v). c \<noteq> CHR ''.'' \<and> c \<noteq> CHR '','')
       \<and> (t = ''.'' \<or> t = '','' \<or> (t = [] \<and> cs' = []))"
proof (induction cs arbitrary: pre p rest)
  case Nil
  then show ?case by (simp add: clause_from_Nil)
next
  case (Cons c cs)
  note prems = Cons.prems and IH = Cons.IH
  from prems have d: "dot c"
    by (simp add: clause_from_Cons split: if_splits)
  show ?case
  proof (cases "matches clause_end (Some c, cs, Some (pre @ [c])) = []")
    case False
    then obtain m ms where ms: "matches clause_end (Some c, cs, Some (pre @ [c])) = m # ms"
      by (cases "matches clause_end (Some c, cs, Some (pre @ [c]))") auto
    with prems d have m: "m = (p', cs', g')" by (simp add: clause_from_Cons)
    from clause_end_head [OF ms [unfolded m]] obtain t where
      t: "cs = t @ cs'" "g' = Some (pre @ [c])" "t = ''.'' \<or> t = '','' \<or> (t = [] \<and> cs' = [])"
      by blast
    from d have nl: "\<not> is_line_terminator c" by (simp add: dot_def)
    show ?thesis
      by (rule exI [where x = "[c]"], rule exI [where x = t]) (use t nl in simp)
  next
    case True
    with prems d have r: "clause_from (pre @ [c]) (Some c, cs, g) = (p', cs', g') # rest"
      by (simp add: clause_from_Cons)
    from clause_end_none [OF True]
    have first: "cs \<noteq> []" "hd cs \<noteq> CHR ''.''" "hd cs \<noteq> CHR '',''" by simp_all
    from IH [OF r] obtain v t where v: "cs = v @ t @ cs'" "g' = Some ((pre @ [c]) @ v)"
      "v \<noteq> []" "\<forall>x \<in> set v. \<not> is_line_terminator x"
      "\<forall>x \<in> set (tl v). x \<noteq> CHR ''.'' \<and> x \<noteq> CHR '',''"
      "t = ''.'' \<or> t = '','' \<or> (t = [] \<and> cs' = [])" by blast
    from v(1,3) have "hd cs = hd v" by (cases v) simp_all
    with first have "hd v \<noteq> CHR ''.'' \<and> hd v \<noteq> CHR '',''" by simp
    with v(3,5) have all: "\<forall>x \<in> set v. x \<noteq> CHR ''.'' \<and> x \<noteq> CHR '',''" by (cases v) simp_all
    from d have nl: "\<not> is_line_terminator c" by (simp add: dot_def)
    show ?thesis
      by (rule exI [where x = "c # v"], rule exI [where x = t]) (use v(1,2,4,6) all nl in simp)
  qed
qed

lemma concat_map_head:
  "concat (map f xs) = y # ys \<Longrightarrow> \<exists>x \<in> set xs. \<exists>zs. f x = y # zs"
proof (induction xs)
  case Nil
  then show ?case by simp
next
  case (Cons x xs)
  then show ?case by (cases "f x") auto
qed

lemma trigger_clause_head:
  assumes "matches (Seq tr clause) (p, cs, g) = (p', cs', g') # rest"
  shows "\<exists>w u t p1 g1. cs = w @ u @ t @ cs' \<and> (p1, u @ t @ cs', g1) \<in> set (matches tr (p, cs, g))
       \<and> g' = Some u \<and> u \<noteq> []
       \<and> (\<forall>c \<in> set u. \<not> is_line_terminator c)
       \<and> (\<forall>c \<in> set (tl u). c \<noteq> CHR ''.'' \<and> c \<noteq> CHR '','')
       \<and> (t = ''.'' \<or> t = '','' \<or> (t = [] \<and> cs' = []))"
proof -
  from assms have "concat (map (matches clause) (matches tr (p, cs, g))) = (p', cs', g') # rest"
    by simp
  from concat_map_head [OF this] obtain y zs where
    y: "y \<in> set (matches tr (p, cs, g))" and c: "matches clause y = (p', cs', g') # zs" by blast
  obtain p1 cs1 g1 where y': "y = (p1, cs1, g1)" by (cases y) auto
  from matches_consumes [OF y [unfolded y']] obtain w where w: "cs = w @ cs1" by blast
  from c have "clause_from [] (p1, cs1, g1) = (p', cs', g') # zs"
    by (simp add: y' matches_clause)
  from clause_from_head [OF this] obtain u t where u: "cs1 = u @ t @ cs'" "g' = Some u"
    "u \<noteq> []" "\<forall>c \<in> set u. \<not> is_line_terminator c"
    "\<forall>c \<in> set (tl u). c \<noteq> CHR ''.'' \<and> c \<noteq> CHR '',''"
    "t = ''.'' \<or> t = '','' \<or> (t = [] \<and> cs' = [])" by auto
  show ?thesis
    by (rule exI [where x = w], rule exI [where x = u], rule exI [where x = t],
        rule exI [where x = p1], rule exI [where x = g1])
       (use w u y y' in simp)
qed

section \<open>Properties of the loops\<close>

lemma exec_global_invariant:
  assumes "exec_global r body st acc = Inr acc'"
    and "\<And>g a a'. body g a = Inr a' \<Longrightarrow> P a \<Longrightarrow> P a'"
    and "P acc"
  shows "P acc'"
  using assms
proof (induction r body st acc rule: exec_global.induct)
  case (1 r body p cs acc)
  note step = exec_global.simps [of r body p cs acc]
  show ?case
  proof (cases "search r (p, cs)")
    case None
    with "1.prems" step show ?thesis by simp
  next
    case (Some m)
    obtain b p' cs' g where m: "m = (b, (p', cs', g))" by (cases m) auto
    from "1.prems"(1) step Some m obtain a where a: "body g acc = Inr a"
      by (auto split: sum.splits)
    with "1.prems"(1) step Some m have lt: "length cs' < length cs"
      and rec: "exec_global r body (p', cs') a = Inr acc'"
      by (auto split: if_splits)
    from "1.prems"(2) [OF a "1.prems"(3)] have "P a" .
    from "1.IH" [OF Some m [symmetric] refl refl a lt rec "1.prems"(2) this]
    show ?thesis by simp
  qed
qed

lemma exec_while_invariant:
  assumes "exec_while rx s body acc = Inr acc'"
    and "\<And>g a a'. body g a = Inr a' \<Longrightarrow> P a \<Longrightarrow> P a'"
    and "P acc"
  shows "P acc'"
proof (cases "global rx")
  case True
  with assms(1) have "exec_global (source rx) body (None, s) acc = Inr acc'"
    by (simp add: exec_while_def)
  then show ?thesis using assms(2,3) by (rule exec_global_invariant)
next
  case False
  with assms(1,3) show ?thesis
    by (auto simp: exec_while_def split: option.splits sum.splits)
qed

lemma keep_kept: "keep ty ex g acc = Inr acc' \<Longrightarrow> kept ty acc \<Longrightarrow> kept ty acc'"
  by (auto simp: keep_def kept_def split: sum.splits if_splits)

lemma constraints_loop_kept:
  "constraints_loop s cps ty acc = Inr acc' \<Longrightarrow> kept ty acc \<Longrightarrow> kept ty acc'"
proof (induction cps arbitrary: acc)
  case Nil
  then show ?case by simp
next
  case (Cons cp cps)
  from Cons.prems(1) obtain a where
    a: "exec_while (pattern cp) s (keep ty (extractor cp)) acc = Inr a"
    and rest: "constraints_loop s cps ty a = Inr acc'"
    by (auto split: sum.splits)
  have "kept ty a"
    using a keep_kept Cons.prems(2) by (rule exec_while_invariant)
  with rest show ?case by (rule Cons.IH)
qed

lemma extractConstraints_kept:
  assumes "extractConstraints s cps ty = Inr cs"
  shows "\<forall>c \<in> set cs. 3 < length (constraint_text c) \<and> length (constraint_text c) < 100
          \<and> constraint_type c = ty"
    and "distinct (map (\<lambda>c. toLowerCase (constraint_text c)) cs)"
proof -
  from assms obtain acc where acc: "constraints_loop s cps ty ([], {}) = Inr acc"
    and cs: "cs = fst acc"
    by (auto simp: extractConstraints_def split: sum.splits)
  have "kept ty ([], {})" by (simp add: kept_def)
  with acc have "kept ty acc" by (rule constraints_loop_kept)
  then show "\<forall>c \<in> set cs. 3 < length (constraint_text c) \<and> length (constraint_text c) < 100
          \<and> constraint_type c = ty"
    and "distinct (map (\<lambda>c. toLowerCase (constraint_text c)) cs)"
    by (simp_all add: kept_def cs)
qed

lemma keep_add_text:
  "keep ty ex g acc = Inr acc' \<Longrightarrow>
     acc' = fold (add_text ty) (case ex g of Inl e \<Rightarrow> [] | Inr t \<Rightarrow> [t]) acc"
  by (auto simp: keep_def add_text_def split: sum.splits)

lemma exec_global_fold:
  assumes "exec_global r (keep ty ex) st acc = Inr acc'"
  shows "acc' = fold (add_text ty)
           (concat (map (\<lambda>g. case ex g of Inl e \<Rightarrow> [] | Inr t \<Rightarrow> [t]) (all_groups r st))) acc"
  using assms
proof (induction r "keep ty ex" st acc rule: exec_global.induct)
  case (1 r p cs acc)
  note step = exec_global.simps [of r "keep ty ex" p cs acc]
  note groups = all_groups.simps [of r p cs]
  show ?case
  proof (cases "search r (p, cs)")
    case None
    with "1.prems" step groups show ?thesis by simp
  next
    case (Some m)
    obtain b p' cs' g where m: "m = (b, (p', cs', g))" by (cases m) auto
    from "1.prems" step Some m obtain a where a: "keep ty ex g acc = Inr a"
      by (auto split: sum.splits)
    with "1.prems" step Some m have lt: "length cs' < length cs"
      and rec: "exec_global r (keep ty ex) (p', cs') a = Inr acc'"
      by (auto split: if_splits)
    from "1.hyps" [OF Some m [symmetric] refl refl a lt rec]
    have "acc' = fold (add_text ty)
           (concat (map (\<lambda>g. case ex g of Inl e \<Rightarrow> [] | Inr t \<Rightarrow> [t])
              (all_groups r (p', cs')))) a" .
    moreover from keep_add_text [OF a]
    have "a = fold (add_text ty) (case ex g of Inl e \<Rightarrow> [] | Inr t \<Rightarrow> [t]) acc" .
    ultimately show ?thesis using Some m lt groups by simp
  qed
qed

lemma constraints_loop_fold:
  assumes "\<forall>cp \<in> set cps. global (pattern cp)"
    and "constraints_loop s cps ty acc = Inr acc'"
  shows "acc' = fold (add_text ty) (all_texts cps s) acc"
  using assms
proof (induction cps arbitrary: acc)
  case Nil
  then show ?case by (simp add: all_texts_def)
next
  case (Cons cp cps)
  from Cons.prems(2) obtain a where
    a: "exec_while (pattern cp) s (keep ty (extractor cp)) acc = Inr a"
    and rest: "constraints_loop s cps ty a = Inr acc'"
    by (auto split: sum.splits)
  from Cons.prems(1) a
  have "exec_global (source (pattern cp)) (keep ty (extractor cp)) (None, s) acc = Inr a"
    by (simp add: exec_while_def)
  from exec_global_fold [OF this] have "a = fold (add_text ty) (texts_of cp s) acc"
    by (simp add: texts_of_def)
  moreover from Cons.IH [OF _ rest] Cons.prems(1)
  have "acc' = fold (add_text ty) (all_texts cps s) a" by simp
  ultimately show ?case by (simp add: all_texts_def)
qed

lemma fold_add_text_first_kept:
  assumes "snd acc = (\<lambda>c. toLowerCase (constraint_text c)) ` set (fst acc)"
  shows "map constraint_text (fst (fold (add_text ty) ts acc)) =
           map constraint_text (fst acc)
           @ first_kept (filter (\<lambda>t. 3 < length t \<and> length t < 100
                                   \<and> toLowerCase t \<notin> snd acc) ts)"
  using assms
proof (induction ts arbitrary: acc)
  case Nil
  then show ?case by simp
next
  case (Cons t ts)
  let ?ok = "3 < length t \<and> length t < 100 \<and> toLowerCase t \<notin> snd acc"
  show ?case
  proof (cases ?ok)
    case False
    then have "add_text ty t acc = acc" by (auto simp: add_text_def)
    with Cons.IH [OF Cons.prems] False show ?thesis by auto
  next
    case True
    let ?acc = "add_text ty t acc"
    from True have acc': "fst ?acc = fst acc @ [\<lparr>constraint_text = t, constraint_type = ty\<rparr>]"
      "snd ?acc = insert (toLowerCase t) (snd acc)"
      by (auto simp: add_text_def)
    with Cons.prems have "snd ?acc = (\<lambda>c. toLowerCase (constraint_text c)) ` set (fst ?acc)"
      by auto
    from Cons.IH [OF this]
    have "map constraint_text (fst (fold (add_text ty) ts ?acc)) =
            map constraint_text (fst ?acc)
            @ first_kept (filter (\<lambda>u. 3 < length u \<and> length u < 100
                                    \<and> toLowerCase u \<notin> snd ?acc) ts)" .
    moreover have "filter (\<lambda>u. 3 < length u \<and> length u < 100 \<and> toLowerCase u \<notin> snd ?acc) ts
      = filter (\<lambda>u. toLowerCase u \<noteq> toLowerCase t)
          (filter (\<lambda>u. 3 < length u \<and> length u < 100 \<and> toLowerCase u \<notin> snd acc) ts)"
      by (auto simp: acc' intro: filter_cong)
    ultimately show ?thesis using True by (simp add: acc')
  qed
qed

lemma extractConstraints_first_kept:
  assumes "\<forall>cp \<in> set cps. global (pattern cp)"
    and "extractConstraints s cps ty = Inr cs"
  shows "map constraint_text cs =
           first_kept (filter (\<lambda>t. 3 < length t \<and> length t < 100) (all_texts cps s))"
proof -
  from assms(2) obtain acc where acc: "constraints_loop s cps ty ([], {}) = Inr acc"
    and cs: "cs = fst acc"
    by (auto simp: extractConstraints_def split: sum.splits)
  from constraints_loop_fold [OF assms(1) acc] fold_add_text_first_kept [of "([], {})" ty]
  show ?thesis by (simp add: cs)
qed

lemma table_shape:
  "cp \<in> set (HARD_CONSTRAINT_PATTERNS @ SOFT_CONSTRAINT_PATTERNS) \<Longrightarrow>
     \<exists>tr pre. pattern cp = \<lparr>source = Seq tr clause, global = True\<rparr> \<and> extractor cp = trimmed pre
        \<and> pre \<in> set [[], ''no '', ''without '']"
  by (auto simp: HARD_CONSTRAINT_PATTERNS_def SOFT_CONSTRAINT_PATTERNS_def gi_def)

lemma table_extractors:
  "map (\<lambda>q. extractor q (Some v)) HARD_CONSTRAINT_PATTERNS =
     [Inr (trim v), Inr (trim v), Inr (trim v), Inr (trim v), Inr (trim v),
      Inr (''no '' @ trim v), Inr (''without '' @ trim v)]"
  "map (\<lambda>q. extractor q (Some v)) SOFT_CONSTRAINT_PATTERNS =
     [Inr (trim v), Inr (trim v), Inr (trim v), Inr (trim v), Inr (trim v), Inr (trim v)]"
  by (simp_all add: HARD_CONSTRAINT_PATTERNS_def SOFT_CONSTRAINT_PATTERNS_def gi_def trimmed_def)

lemma tables_global:
  "cp \<in> set (HARD_CONSTRAINT_PATTERNS @ SOFT_CONSTRAINT_PATTERNS) \<Longrightarrow> global (pattern cp)"
  using table_shape [of cp] by auto

lemma first_kept_lower:
  "toLowerCase ` set (first_kept ts) = toLowerCase ` set ts"
  by (induction ts rule: first_kept.induct) auto

lemma search_trigger_clause:
  assumes "search (Seq tr clause) (p, cs) = Some (b, (p', cs', g))"
  shows "\<exists>w u t. cs = b @ w @ u @ t @ cs'
       \<and> (\<exists>p0 p1 g1. (p1, u @ t @ cs', g1) \<in> set (matches tr (p0, w @ u @ t @ cs', None)))
       \<and> g = Some u \<and> u \<noteq> []
       \<and> (\<forall>c \<in> set u. \<not> is_line_terminator c)
       \<and> (\<forall>c \<in> set (tl u). c \<noteq> CHR ''.'' \<and> c \<noteq> CHR '','')
       \<and> (t = ''.'' \<or> t = '','' \<or> (t = [] \<and> cs' = []))"
proof -
  from search_Some [OF assms] obtain p0 cs0 rest where
    cs: "cs = b @ cs0" and m: "matches (Seq tr clause) (p0, cs0, None) = (p', cs', g) # rest"
    by blast
  from trigger_clause_head [OF m] obtain w u t p1 g1 where
    u: "cs0 = w @ u @ t @ cs'" "(p1, u @ t @ cs', g1) \<in> set (matches tr (p0, cs0, None))"
      "g = Some u" "u \<noteq> []" "\<forall>c \<in> set u. \<not> is_line_terminator c"
      "\<forall>c \<in> set (tl u). c \<noteq> CHR ''.'' \<and> c \<noteq> CHR '',''"
      "t = ''.'' \<or> t = '','' \<or> (t = [] \<and> cs' = [])"
    by blast
  from u(2) have "\<exists>p0 p1 g1. (p1, u @ t @ cs', g1) \<in> set (matches tr (p0, w @ u @ t @ cs', None))"
    unfolding u(1) by blast
  with cs u show ?thesis
    by (intro exI [where x = w] exI [where x = u] exI [where x = t]) simp
qed


lemma clause_collected:
  assumes "\<forall>cp \<in> set cps. global (pattern cp)"
    and "extractConstraints s cps ty = Inr found"
    and "cp \<in> set cps"
    and "g \<in> set (all_groups (source (pattern cp)) (None, s))"
    and "extractor cp g = Inr t"
    and "3 < length t" and "length t < 100"
  shows "toLowerCase t \<in> toLowerCase ` set (map constraint_text found)"
proof -
  from assms(4,5) have "t \<in> set (texts_of cp s)"
    by (force simp: texts_of_def)
  with assms(3) have "t \<in> set (all_texts cps s)"
    by (auto simp: all_texts_def)
  with assms(6,7)
  have "t \<in> set (filter (\<lambda>t. 3 < length t \<and> length t < 100) (all_texts cps s))"
    by simp
  then have "toLowerCase t \<in> toLowerCase `
      set (first_kept (filter (\<lambda>t. 3 < length t \<and> length t < 100) (all_texts cps s)))"
    unfolding first_kept_lower by (rule imageI)
  then show ?thesis
    by (simp only: extractConstraints_first_kept [OF assms(1,2)])
qed

section \<open>When the entry point returns\<close>

lemma exec_global_returns:
  assumes "\<And>p cs b p' cs' g. search r (p, cs) = Some (b, (p', cs', g)) \<Longrightarrow>
             length cs' < length cs \<and> (\<forall>a. \<exists>a'. body g a = Inr a')"
  shows "\<exists>acc'. exec_global r body st acc = Inr acc'"
  using assms
proof (induction r body st acc rule: exec_global.induct)
  case (1 r body p cs acc)
  note step = exec_global.simps [of r body p cs acc]
  show ?case
  proof (cases "search r (p, cs)")
    case None
    with step show ?thesis by simp
  next
    case (Some m)
    obtain b p' cs' g where m: "m = (b, (p', cs', g))" by (cases m) auto
    from "1.prems" [OF Some [unfolded m]] obtain a where
      lt: "length cs' < length cs" and a: "body g acc = Inr a" by blast
    have "\<exists>acc'. exec_global r body (p', cs') a = Inr acc'"
      by (rule "1.IH" [OF Some m [symmetric] refl refl a lt]) (rule "1.prems")
    then obtain acc' where "exec_global r body (p', cs') a = Inr acc'" by blast
    with step Some m a lt show ?thesis by simp
  qed
qed

lemma search_consumes:
  assumes "search r (p, cs) = Some (b, (p', cs', g))"
  shows "length cs' + minlen r \<le> length cs"
proof -
  from search_Some [OF assms] obtain p0 cs0 rest where
    cs: "cs = b @ cs0" and m: "matches r (p0, cs0, None) = (p', cs', g) # rest" by blast
  from m have "(p', cs', g) \<in> set (matches r (p0, cs0, None))" by simp
  from matches_consumes [OF this] obtain w where "cs0 = w @ cs'" "minlen r \<le> length w" by blast
  with cs show ?thesis by simp
qed

lemma keep_trimmed_returns: "\<exists>a'. keep ty (trimmed pre) (Some u) a = Inr a'"
  by (simp add: keep_def trimmed_def)

lemma constraints_loop_returns:
  assumes "set cps \<subseteq> set (HARD_CONSTRAINT_PATTERNS @ SOFT_CONSTRAINT_PATTERNS)"
  shows "\<exists>acc'. constraints_loop s cps ty acc = Inr acc'"
  using assms
proof (induction cps arbitrary: acc)
  case Nil
  then show ?case by simp
next
  case (Cons cp cps)
  from Cons.prems have mem: "cp \<in> set (HARD_CONSTRAINT_PATTERNS @ SOFT_CONSTRAINT_PATTERNS)"
    and rest: "set cps \<subseteq> set (HARD_CONSTRAINT_PATTERNS @ SOFT_CONSTRAINT_PATTERNS)" by simp_all
  from table_shape [OF mem] obtain tr pre where
    shape: "pattern cp = \<lparr>source = Seq tr clause, global = True\<rparr>" and ex: "extractor cp = trimmed pre"
    by blast
  have "\<exists>a. exec_global (Seq tr clause) (keep ty (trimmed pre)) (None, s) acc = Inr a"
  proof (rule exec_global_returns)
    fix p cs b p' cs' g
    assume m: "search (Seq tr clause) (p, cs) = Some (b, (p', cs', g))"
    from search_trigger_clause [OF m] obtain w u t where
      "cs = b @ w @ u @ t @ cs'" "g = Some u" "u \<noteq> []" by blast
    then show "length cs' < length cs \<and> (\<forall>a. \<exists>a'. keep ty (trimmed pre) g a = Inr a')"
      using keep_trimmed_returns by (cases u) simp_all
  qed
  then obtain a where "exec_while (pattern cp) s (keep ty (extractor cp)) acc = Inr a"
    by (auto simp: exec_while_def shape ex)
  moreover from Cons.IH [OF rest] obtain acc' where "constraints_loop s cps ty a = Inr acc'"
    by blast
  ultimately show ?case by simp
qed

lemma extractConstraints_returns:
  "\<exists>found. extractConstraints s HARD_CONSTRAINT_PATTERNS Hard = Inr found"
  "\<exists>found. extractConstraints s SOFT_CONSTRAINT_PATTERNS Soft = Inr found"
proof -
  from constraints_loop_returns [of HARD_CONSTRAINT_PATTERNS s Hard "([], {})"]
  show "\<exists>found. extractConstraints s HARD_CONSTRAINT_PATTERNS Hard = Inr found"
    by (auto simp: extractConstraints_def)
  from constraints_loop_returns [of SOFT_CONSTRAINT_PATTERNS s Soft "([], {})"]
  show "\<exists>found. extractConstraints s SOFT_CONSTRAINT_PATTERNS Soft = Inr found"
    by (auto simp: extractConstraints_def)
qed

lemma structurePatterns_eq:
  "structurePatterns = [\<lparr>source = with_sections, global = False\<rparr>,
                        \<lparr>source = include_clause, global = True\<rparr>]"
  by (simp add: structurePatterns_def with_sections_def include_clause_def)

lemma minlen_include_clause: "0 < minlen include_clause"
  by (simp add: include_clause_def liti_def ci_def chr_def)

lemma structures_loop_outcome:
  "if test with_sections s then structures_loop s structurePatterns [] = Inl Diverges
   else (\<exists>found. structures_loop s structurePatterns [] = Inr found)"
proof (cases "test with_sections s")
  case True
  then show ?thesis
    by (auto simp: structurePatterns_eq exec_while_def test_def push_structure_def)
next
  case False
  have "\<exists>a. exec_global include_clause push_structure (None, s) [] = Inr a"
  proof (rule exec_global_returns)
    fix p cs b p' cs' g
    assume m: "search include_clause (p, cs) = Some (b, (p', cs', g))"
    from search_consumes [OF m] minlen_include_clause
    show "length cs' < length cs \<and> (\<forall>a. \<exists>a'. push_structure g a = Inr a')"
      by (simp add: push_structure_def)
  qed
  then obtain a where a: "exec_global include_clause push_structure (None, s) [] = Inr a"
    by blast
  from False have none: "search with_sections (None, s) = None"
    by (cases "search with_sections (None, s)") (simp_all add: test_def)
  from False show ?thesis
    by (simp add: structurePatterns_eq exec_while_def none a)
qed

lemma normalize_outcome:
  "if test with_sections s then normalize s = Inl Diverges
   else (\<exists>r. normalize s = Inr r)"
proof -
  from extractConstraints_returns [of s] obtain hs fs where
    h: "extractConstraints s HARD_CONSTRAINT_PATTERNS Hard = Inr hs" and
    f: "extractConstraints s SOFT_CONSTRAINT_PATTERNS Soft = Inr fs" by blast
  show ?thesis
  proof (cases "test with_sections s")
    case True
    with structures_loop_outcome [of s]
    have "structures_loop s structurePatterns [] = Inl Diverges" by simp
    then have "parseIntent s = Inl Diverges"
      by (simp add: parseIntent_def extractOutputExpectations_def h f Let_def)
    with True show ?thesis by (simp add: normalize_def)
  next
    case False
    with structures_loop_outcome [of s] obtain found where
      "structures_loop s structurePatterns [] = Inr found" by auto
    then have "\<exists>parsed. parseIntent s = Inr parsed"
      by (simp add: parseIntent_def extractOutputExpectations_def h f Let_def)
    with False show ?thesis by (auto simp: normalize_def Let_def)
  qed
qed

section \<open>Properties of the goal extractor\<close>

lemma run_rests: "map (\<lambda>st. fst (snd st)) (run P (p, s, g)) = runs P s"
  by (induction s arbitrary: p) simp_all

lemma matches_rests:
  "pfree r \<Longrightarrow> map (\<lambda>st. fst (snd st)) (matches r (p, s, g)) = rests r s"
proof (induction r arbitrary: p s g)
  case (One P)
  then show ?case by (cases s) simp_all
next
  case (Seq a b)
  from Seq.prems have pa: "pfree a" and pb: "pfree b" by simp_all
  have "map (\<lambda>st. fst (snd st)) (matches (Seq a b) (p, s, g))
      = concat (map (\<lambda>st. map (\<lambda>st. fst (snd st)) (matches b st)) (matches a (p, s, g)))"
    by (simp add: map_concat comp_def)
  also have "\<dots> = concat (map (\<lambda>st. rests b (fst (snd st))) (matches a (p, s, g)))"
  proof -
    have "map (\<lambda>st. fst (snd st)) (matches b st) = rests b (fst (snd st))" for st
      using Seq.IH(2) [OF pb, of "fst st" "fst (snd st)" "snd (snd st)"] by simp
    then show ?thesis by simp
  qed
  also have "\<dots> = concat (map (rests b) (map (\<lambda>st. fst (snd st)) (matches a (p, s, g))))"
    by (simp add: comp_def)
  also have "\<dots> = rests (Seq a b) s"
    by (simp add: Seq.IH(1) [OF pa])
  finally show ?case .
next
  case (Alt a b)
  then show ?case by simp
next
  case (PlusG P)
  then show ?case by (simp add: rev_map [symmetric] run_rests)
next
  case (PlusL P)
  then show ?case by (simp add: run_rests)
next
  case (StarG P)
  then show ?case by (simp add: rev_map [symmetric] run_rests)
next
  case (Grp a)
  then have "map (\<lambda>st. fst (snd st)) (matches a (p, s, g)) = rests a s" by simp
  then show ?case by (simp add: comp_def case_prod_beta)
qed simp_all

lemma search_Bol_later: "search (Seq Bol r) (Some c, cs) = None"
  by (induction cs arbitrary: c) simp_all

lemma remove_first_anchored:
  assumes "pfree r"
  shows "remove_first (Seq Bol r) s = (case hdo (rests r s) of None \<Rightarrow> s | Some t \<Rightarrow> t)"
proof -
  have m: "matches (Seq Bol r) (None, s, None) = matches r (None, s, None)" by simp
  show ?thesis
  proof (cases "matches r (None, s, None)")
    case Nil
    with matches_rests [OF assms, of None s None] have "rests r s = []" by simp
    with Nil m show ?thesis
      by (cases s) (simp_all add: remove_first_def hdo_def search_Bol_later)
  next
    case (Cons st sts)
    with matches_rests [OF assms, of None s None, symmetric]
    have "rests r s = fst (snd st) # map (\<lambda>st. fst (snd st)) sts" by simp
    then have "hdo (rests r s) = Some (fst (snd st))" by (simp add: hdo_def)
    with Cons m show ?thesis
      by (cases s; cases st) (simp_all add: remove_first_def)
  qed
qed


lemma is_space_lower: "is_space c \<Longrightarrow> to_lower c = c"
  by (cases c) (auto simp: is_space_def to_lower_Char has_lower_Char)

lemma rests_ci_seq:
  "rests (Seq (ci c) X) s = (case after_word [c] s of None \<Rightarrow> [] | Some t \<Rightarrow> rests X t)"
  by (cases s) (simp_all add: ci_def)

lemma rests_ci:
  "rests (ci c) [] = []"
  "rests (ci c) (x # xs) = (if to_lower x = to_lower c then [xs] else [])"
  by (simp_all add: ci_def)

lemma rests_sq_ci:
  "rests (Seq (sq (map ci (c # w))) X) s =
     (case after_word (c # w) s of None \<Rightarrow> [] | Some t \<Rightarrow> rests X t)"
proof (induction w arbitrary: c s)
  case Nil
  then show ?case by (cases s) (simp_all add: ci_def)
next
  case (Cons d w)
  have IH: "concat (map (rests X) (rests (sq (ci d # map ci w)) t))
      = (case after_word (d # w) t of None \<Rightarrow> [] | Some u \<Rightarrow> rests X u)" for t
    using Cons.IH [of d t] by simp
  show ?case
    by (cases s) (simp_all add: IH rests_ci)
qed

lemma rests_liti_seq:
  assumes "w \<noteq> []"
  shows "rests (Seq (liti w) X) s = (case after_word w s of None \<Rightarrow> [] | Some t \<Rightarrow> rests X t)"
proof -
  from assms obtain c w' where "w = c # w'" by (cases w) auto
  then show ?thesis by (simp only: liti_def rests_sq_ci)
qed

lemma runs_space:
  assumes "\<And>c cs. is_space c \<Longrightarrow> f (c # cs) = []"
  shows "concat (map f (rev (runs is_space s))) =
     (case after_space s of None \<Rightarrow> [] | Some u \<Rightarrow> f u)"
proof (induction s)
  case Nil
  then show ?case by (simp add: after_space_def)
next
  case (Cons c s)
  show ?case
  proof (cases "is_space c")
    case False
    then show ?thesis by (simp add: after_space_def)
  next
    case True
    show ?thesis
    proof (cases s)
      case Nil
      with True show ?thesis by (simp add: after_space_def)
    next
      case (Cons d s')
      show ?thesis
      proof (cases "is_space d")
        case True
        with assms Cons have "f s = []" by simp
        with Cons.IH \<open>is_space c\<close> True Cons show ?thesis
          by (simp add: after_space_def)
      next
        case False
        with \<open>is_space c\<close> Cons show ?thesis by (simp add: after_space_def)
      qed
    qed
  qed
qed

lemma rests_space_seq:
  "rejects_space X \<Longrightarrow>
     rests (Seq (PlusG is_space) X) s = (case after_space s of None \<Rightarrow> [] | Some u \<Rightarrow> rests X u)"
  using runs_space [of "rests X" s] by (simp add: rejects_space_def)

lemma hdo_append: "hdo (xs @ ys) = (case hdo xs of Some x \<Rightarrow> Some x | None \<Rightarrow> hdo ys)"
  by (cases xs) (simp_all add: hdo_def)

lemma hdo_runs_space: "hdo (rests (PlusG is_space) s) = after_space s"
proof (induction s)
  case Nil
  then show ?case by (simp add: hdo_def after_space_def)
next
  case (Cons c s)
  have "hdo [s] = Some s" and "hdo ([] :: string list) = None" by (simp_all add: hdo_def)
  with Cons show ?case
    by (cases s) (simp_all add: hdo_append after_space_def)
qed

lemma concat_map_concat_list:
  "concat (map f (concat xss)) = concat (map (\<lambda>xs. concat (map f xs)) xss)"
  by (induction xss) simp_all

lemma rests_opt_seq: "rests (Seq (Opt A) Y) s = rests (Seq A Y) s @ rests Y s"
  by (simp add: Opt_def)

lemma rests_seq_assoc: "rests (Seq (Seq a b) Y) s = rests (Seq a (Seq b Y)) s"
proof -
  have "(\<lambda>xs. concat (map (rests Y) xs)) \<circ> rests b = rests (Seq b Y)"
    by (rule ext) simp
  then show ?thesis by (simp add: concat_map_concat_list)
qed

lemma hdo_case:
  "hdo (case x of None \<Rightarrow> [] | Some t \<Rightarrow> f t) = (case x of None \<Rightarrow> None | Some t \<Rightarrow> hdo (f t))"
  by (cases x) (simp_all add: hdo_def)

lemma rejects_ci: "\<not> is_space (to_lower c) \<Longrightarrow> rejects_space (Seq (ci c) X)"
  by (auto simp: rejects_space_def ci_def is_space_lower)

lemma rejects_liti: "\<not> is_space (to_lower c) \<Longrightarrow> rejects_space (Seq (liti (c # w)) X)"
  by (auto simp: rejects_space_def rests_liti_seq is_space_lower simp del: rests.simps)

lemma rejects_opt:
  "rejects_space (Seq A Y) \<Longrightarrow> rejects_space Y \<Longrightarrow> rejects_space (Seq (Opt A) Y)"
  by (simp add: rejects_space_def rests_opt_seq del: rests.simps)

lemma rejects_assoc: "rejects_space (Seq a (Seq b Y)) \<Longrightarrow> rejects_space (Seq (Seq a b) Y)"
  by (simp add: rejects_space_def rests_seq_assoc del: rests.simps)

lemma case_option_id: "(case x of None \<Rightarrow> None | Some u \<Rightarrow> Some u) = x"
  by (cases x) simp_all

lemma not_space_letters:
  "\<not> is_space (to_lower CHR ''i'')" "\<not> is_space (to_lower CHR ''w'')"
  "\<not> is_space (to_lower CHR ''y'')" "\<not> is_space (to_lower CHR ''t'')"
  "\<not> is_space (to_lower CHR ''p'')" "\<not> is_space (to_lower CHR ''c'')"
  "\<not> is_space (to_lower CHR ''h'')" "\<not> is_space (to_lower CHR ''m'')"
  "\<not> is_space (to_lower CHR ''n'')"
  by (simp_all add: is_space_def to_lower_Char has_lower_Char)

lemmas filler_rules =
  rests_ci_seq rests_liti_seq rests_space_seq rests_opt_seq rests_seq_assoc
  rejects_ci rejects_liti rejects_opt rejects_assoc not_space_letters
  hdo_case hdo_append hdo_runs_space case_option_id

lemma pfree_liti: "pfree (liti w)"
  unfolding liti_def
proof (induction w)
  case Nil
  show ?case by simp
next
  case (Cons c w)
  then show ?case by (cases w) (simp_all add: ci_def)
qed

lemma pfree_ci: "pfree (ci c)"
  by (simp add: ci_def)

lemma pfree_Opt: "pfree (Opt r) = pfree r"
  by (simp add: Opt_def)

lemma filler_pattern_phrase:
  assumes "k < 5"
  shows "remove_first (fillerPatterns ! k) g = drop_phrase (FILLER_PHRASES ! k) g"
proof -
  from assms consider "k = 0" | "k = 1" | "k = 2" | "k = 3" | "k = 4" by linarith
  then show ?thesis
  proof cases
    case 1
    then show ?thesis
      by (simp add: fillerPatterns_def FILLER_PHRASES_def drop_phrase_def remove_first_anchored
          pfree_liti pfree_ci pfree_Opt filler_rules del: rests.simps split: option.split)
  next
    case 2
    then show ?thesis
      by (simp add: fillerPatterns_def FILLER_PHRASES_def drop_phrase_def remove_first_anchored
          pfree_liti filler_rules del: rests.simps split: option.split)
  next
    case 3
    then show ?thesis
      by (simp add: fillerPatterns_def FILLER_PHRASES_def drop_phrase_def remove_first_anchored
          pfree_liti filler_rules del: rests.simps split: option.split)
  next
    case 4
    then show ?thesis
      by (simp add: fillerPatterns_def FILLER_PHRASES_def drop_phrase_def remove_first_anchored
          pfree_liti filler_rules del: rests.simps split: option.split)
  next
    case 5
    then show ?thesis
      by (simp add: fillerPatterns_def FILLER_PHRASES_def drop_phrase_def remove_first_anchored
          pfree_liti pfree_ci pfree_Opt filler_rules del: rests.simps split: option.split)
  qed
qed

lemma fold_pointwise:
  assumes "length ps = length qs"
    and "\<And>k x. k < length ps \<Longrightarrow> f (ps ! k) x = h (qs ! k) x"
  shows "fold f ps x = fold h qs x"
  using assms
proof (induction ps qs arbitrary: x rule: list_induct2)
  case Nil
  show ?case by simp
next
  case (Cons p ps q qs)
  have 0: "f p x = h q x" using Cons.prems [of 0 x] by simp
  have "\<And>k y. k < length ps \<Longrightarrow> f (ps ! k) y = h (qs ! k) y"
    using Cons.prems [of "Suc k" for k] by simp
  with Cons.IH have "fold f ps y = fold h qs y" for y by blast
  with 0 show ?case by simp
qed

lemma strip_fillers: "fold remove_first fillerPatterns g = fold drop_phrase FILLER_PHRASES g"
proof (rule fold_pointwise)
  show "length fillerPatterns = length FILLER_PHRASES"
    by (simp add: fillerPatterns_def FILLER_PHRASES_def)
next
  fix k x
  assume "k < length fillerPatterns"
  then have "k < 5" by (simp add: fillerPatterns_def)
  then show "remove_first (fillerPatterns ! k) x = drop_phrase (FILLER_PHRASES ! k) x"
    by (rule filler_pattern_phrase)
qed

lemma space_not_end: "is_space c \<Longrightarrow> \<not> is_sentence_end c"
  by (auto simp: is_space_def is_sentence_end_def)

lemma split_runs_first:
  "\<forall>c \<in> set x. \<not> P c \<Longrightarrow> tail = [] \<or> P (hd tail) \<Longrightarrow>
     \<exists>rest. split_runs P piece (x @ tail) = (piece @ x) # rest"
proof (induction x arbitrary: piece)
  case Nil
  then show ?case by (cases tail) auto
next
  case (Cons c x)
  from Cons.prems have "\<forall>c \<in> set x. \<not> P c" and c: "\<not> P c" by simp_all
  from Cons.IH [OF this(1) Cons.prems(2), of "piece @ [c]"] c show ?case by simp
qed

lemma dropWhile_before:
  "r \<noteq> [] \<Longrightarrow> \<not> P (hd r) \<Longrightarrow> dropWhile P (l @ r) = dropWhile P l @ r"
  by (induction l) (simp_all, cases r, simp_all)

lemma split_runs_lead:
  assumes "x \<noteq> []" and "\<not> is_sentence_end (hd x)" and "\<forall>c \<in> set x. \<not> is_sentence_end c"
    and "tail = [] \<or> is_sentence_end (hd tail)"
  shows "list_all is_space piece \<Longrightarrow> blank lead \<Longrightarrow>
     \<exists>pre sp rest. split_runs is_sentence_end piece (lead @ x @ tail) = pre @ (sp @ x) # rest
        \<and> list_all (list_all is_space) pre \<and> list_all is_space sp"
proof (induction "length lead" arbitrary: lead piece rule: less_induct)
  case less
  show ?case
  proof (cases lead)
    case Nil
    from split_runs_first [OF assms(3,4), of piece] obtain rest where
      "split_runs is_sentence_end piece (x @ tail) = (piece @ x) # rest" by blast
    with Nil less.prems(1) have "split_runs is_sentence_end piece (lead @ x @ tail) = [] @ (piece @ x) # rest
        \<and> list_all (list_all is_space) [] \<and> list_all is_space piece" by simp
    then show ?thesis by blast
  next
    case (Cons c l)
    from less.prems(2) Cons have bl: "blank l" and c: "is_space c \<or> is_sentence_end c"
      by (simp_all add: blank_def)
    show ?thesis
    proof (cases "is_sentence_end c")
      case True
      let ?l = "dropWhile is_sentence_end l"
      from assms(1,2) have xt: "x @ tail \<noteq> []" "\<not> is_sentence_end (hd (x @ tail))" by simp_all
      have dw: "dropWhile is_sentence_end (l @ x @ tail) = ?l @ x @ tail"
        using dropWhile_before [of "x @ tail" is_sentence_end l] xt by simp
      have len: "length ?l < length lead" using Cons length_dropWhile_le [of is_sentence_end l]
        by (simp add: le_imp_less_Suc)
      have "blank ?l" using bl set_dropWhileD [of _ is_sentence_end l]
        by (auto simp: blank_def list_all_iff)
      from less.hyps [OF len _ this, of "[]"] obtain pre sp rest where
        r: "split_runs is_sentence_end [] (?l @ x @ tail) = pre @ (sp @ x) # rest"
          "list_all (list_all is_space) pre" "list_all is_space sp" by auto
      from True Cons dw r(1) have
        "split_runs is_sentence_end piece (lead @ x @ tail) = (piece # pre) @ (sp @ x) # rest"
        by simp
      moreover from r(2) less.prems(1) have "list_all (list_all is_space) (piece # pre)" by simp
      ultimately show ?thesis using r(3) by blast
    next
      case False
      with c have sp: "is_space c" by simp
      have len: "length l < length lead" using Cons by simp
      from less.prems(1) sp have "list_all is_space (piece @ [c])" by simp
      from less.hyps [OF len this bl] obtain pre sp rest where
        r: "split_runs is_sentence_end (piece @ [c]) (l @ x @ tail) = pre @ (sp @ x) # rest"
          "list_all (list_all is_space) pre" "list_all is_space sp" by auto
      from False Cons r(1) have
        "split_runs is_sentence_end piece (lead @ x @ tail) = pre @ (sp @ x) # rest" by simp
      with r(2,3) show ?thesis by blast
    qed
  qed
qed

lemma split_runs_pieces:
  "list_all Q piece \<Longrightarrow> list_all (\<lambda>c. Q c \<or> P c) s \<Longrightarrow>
     list_all (list_all Q) (split_runs P piece s)"
proof (induction P piece s rule: split_runs.induct)
  case (1 P piece)
  then show ?case by simp
next
  case (2 P piece c cs)
  show ?case
  proof (cases "P c")
    case True
    from "2.prems"(2) have "list_all (\<lambda>c. Q c \<or> P c) (dropWhile P cs)"
      using set_dropWhileD [of _ P cs] by (auto simp: list_all_iff)
    with "2.IH"(1) [OF True] have "list_all (list_all Q) (split_runs P [] (dropWhile P cs))"
      by simp
    with True "2.prems"(1) show ?thesis by simp
  next
    case False
    with "2.prems" have "list_all Q (piece @ [c])" and "list_all (\<lambda>c. Q c \<or> P c) cs"
      by simp_all
    with "2.IH"(2) [OF False] False show ?thesis by simp
  qed
qed

lemma split_runs_blank:
  "list_all is_space piece \<Longrightarrow> blank s \<Longrightarrow>
     list_all (list_all is_space) (split_runs is_sentence_end piece s)"
  unfolding blank_def by (rule split_runs_pieces)

lemma dropWhile_all: "list_all P sp \<Longrightarrow> dropWhile P sp = []"
  by (induction sp) simp_all

lemma dropWhile_padding:
  "list_all P sp \<Longrightarrow> r \<noteq> [] \<Longrightarrow> \<not> P (hd r) \<Longrightarrow> dropWhile P (sp @ r) = r"
  by (induction sp) (simp_all, cases r, simp_all)

lemma trim_all_space: "list_all is_space s \<Longrightarrow> trim s = []"
  by (simp add: trim_def dropWhile_all)

lemma trim_padded:
  assumes "list_all is_space sp" and "list_all is_space ws"
    and "g \<noteq> []" and "\<not> is_space (hd g)" and "\<not> is_space (last g)"
  shows "trim (sp @ g @ ws) = g"
proof -
  from assms(3,4) have "g @ ws \<noteq> []" and "\<not> is_space (hd (g @ ws))" by simp_all
  with assms(1) have 1: "dropWhile is_space (sp @ g @ ws) = g @ ws"
    by (rule dropWhile_padding)
  from assms(2) have "list_all is_space (rev ws)" by (simp add: list_all_iff)
  moreover from assms(3,5) have "rev g \<noteq> []" and "\<not> is_space (hd (rev g))"
    by (simp_all add: hd_rev)
  ultimately have 2: "dropWhile is_space (rev ws @ rev g) = rev g"
    by (rule dropWhile_padding)
  show ?thesis by (simp add: trim_def 1 2)
qed

lemma sentences_blank:
  assumes "blank s"
  shows "filter (\<lambda>s. s \<noteq> []) (map trim (split_runs is_sentence_end [] s)) = []"
proof -
  from split_runs_blank [OF _ assms, of "[]"]
  have "list_all (list_all is_space) (split_runs is_sentence_end [] s)" by simp
  then show ?thesis
    by (auto simp: filter_empty_conv list_all_iff trim_all_space)
qed

lemma sentences_first:
  assumes "first_sentence lead g ws tail"
  shows "\<exists>rest. filter (\<lambda>s. s \<noteq> []) (map trim (split_runs is_sentence_end [] (lead @ g @ ws @ tail)))
           = g # rest"
proof -
  from assms have bl: "blank lead" and g: "g \<noteq> []" "\<not> is_space (hd g)" "\<not> is_space (last g)"
    and ge: "list_all (\<lambda>c. \<not> is_sentence_end c) g" and ws: "list_all is_space ws"
    and t: "tail = [] \<or> is_sentence_end (hd tail)"
    by (auto simp: first_sentence_def split: list.splits)
  let ?x = "g @ ws"
  from g(1) have x1: "?x \<noteq> []" by simp
  from g(1) ge have x2: "\<not> is_sentence_end (hd ?x)" by (cases g) simp_all
  from ge ws have x3: "\<forall>c \<in> set ?x. \<not> is_sentence_end c"
    by (auto simp: list_all_iff space_not_end)
  from split_runs_lead [OF x1 x2 x3 t, of "[]" lead] bl obtain pre sp rest where
    r: "split_runs is_sentence_end [] (lead @ ?x @ tail) = pre @ (sp @ ?x) # rest"
      "list_all (list_all is_space) pre" "list_all is_space sp" by auto
  from r(2) have "filter (\<lambda>s. s \<noteq> []) (map trim pre) = []"
    by (auto simp: filter_empty_conv list_all_iff trim_all_space)
  moreover have "trim (sp @ g @ ws) = g" by (rule trim_padded [OF r(3) ws g])
  ultimately have "filter (\<lambda>s. s \<noteq> []) (map trim (split_runs is_sentence_end [] (lead @ g @ ws @ tail)))
      = g # filter (\<lambda>s. s \<noteq> []) (map trim rest)"
    using r(1) g(1) by simp
  then show ?thesis by blast
qed

lemma goal_blank: "blank s \<Longrightarrow> extractPrimaryGoal s = units (trim s)"
  by (simp add: extractPrimaryGoal_def sentences_blank)

lemma goal_first_sentence:
  assumes "first_sentence lead g ws tail"
  shows "extractPrimaryGoal (lead @ g @ ws @ tail) = capitalize (fold drop_phrase FILLER_PHRASES g)"
proof -
  from sentences_first [OF assms] obtain rest where
    "filter (\<lambda>s. s \<noteq> []) (map trim (split_runs is_sentence_end [] (lead @ g @ ws @ tail))) = g # rest"
    by blast
  then show ?thesis by (simp add: extractPrimaryGoal_def strip_fillers)
qed

lemma split_leading:
  "\<exists>a b. s = a @ b \<and> list_all B a \<and> (b = [] \<or> \<not> B (hd b))"
proof -
  have "s = takeWhile B s @ dropWhile B s" by simp
  moreover have "list_all B (takeWhile B s)" by (auto simp: list_all_iff dest: set_takeWhileD)
  moreover have "dropWhile B s = [] \<or> \<not> B (hd (dropWhile B s))"
    using hd_dropWhile [of B s] by blast
  ultimately show ?thesis by blast
qed

lemma split_trailing:
  "\<exists>a b. s = a @ b \<and> list_all B b \<and> (a = [] \<or> \<not> B (last a))"
proof -
  from split_leading [of "rev s" B] obtain a b where
    r: "rev s = a @ b" and a: "list_all B a" and b: "b = [] \<or> \<not> B (hd b)" by blast
  from r have "rev (rev s) = rev (a @ b)" by (rule arg_cong)
  then have "s = rev b @ rev a" by simp
  moreover from a have "list_all B (rev a)" by (simp add: list_all_iff)
  moreover from b have "rev b = [] \<or> \<not> B (last (rev b))" by (cases "b = []") (simp_all add: last_rev)
  ultimately show ?thesis by blast
qed

lemma first_sentence_exists:
  assumes "\<not> blank s"
  shows "\<exists>lead g ws tail. s = lead @ g @ ws @ tail \<and> first_sentence lead g ws tail"
proof -
  from split_leading [of s "\<lambda>c. is_space c \<or> is_sentence_end c"] obtain lead r where
    s: "s = lead @ r" and lead: "blank lead"
    and r: "r = [] \<or> \<not> (is_space (hd r) \<or> is_sentence_end (hd r))"
    unfolding blank_def by blast
  from assms s lead have r0: "r \<noteq> []" by auto
  with r have hr: "\<not> is_space (hd r)" "\<not> is_sentence_end (hd r)" by simp_all
  from split_leading [of r "\<lambda>c. \<not> is_sentence_end c"] obtain x tail where
    rx: "r = x @ tail" and x: "list_all (\<lambda>c. \<not> is_sentence_end c) x"
    and tail: "tail = [] \<or> is_sentence_end (hd tail)" by auto
  have x0: "x \<noteq> []"
  proof
    assume "x = []"
    with rx r0 tail hr(2) show False by simp
  qed
  with rx have hx: "hd x = hd r" by simp
  from split_trailing [of x is_space] obtain g ws where
    xg: "x = g @ ws" and ws: "list_all is_space ws"
    and g: "g = [] \<or> \<not> is_space (last g)" by blast
  have g0: "g \<noteq> []"
  proof
    assume "g = []"
    with xg ws x0 have "is_space (hd x)" by (cases ws) simp_all
    with hx hr(1) show False by simp
  qed
  with xg have "hd g = hd x" by simp
  with hx hr(1) have hg: "\<not> is_space (hd g)" by simp
  from g g0 have lg: "\<not> is_space (last g)" by simp
  from x xg have ge: "list_all (\<lambda>c. \<not> is_sentence_end c) g" by simp
  from tail have t: "case tail of [] \<Rightarrow> True | c # _ \<Rightarrow> is_sentence_end c"
    by (cases tail) simp_all
  from lead g0 hg lg ge ws t have "first_sentence lead g ws tail"
    by (simp add: first_sentence_def)
  moreover from s rx xg have "s = lead @ g @ ws @ tail" by simp
  ultimately show ?thesis by blast
qed

section \<open>Properties of the assembly\<close>

lemma parseIntent_Inr:
  assumes "parseIntent s = Inr parsed"
  shows "extractConstraints s HARD_CONSTRAINT_PATTERNS Hard = Inr (hardConstraints parsed)"
    and "extractConstraints s SOFT_CONSTRAINT_PATTERNS Soft = Inr (softConstraints parsed)"
    and "extractOutputExpectations s = Inr (parsed_outputExpectations parsed)"
    and "parsed_primaryGoal parsed = extractPrimaryGoal s"
  using assms by (auto simp: parseIntent_def Let_def split: sum.splits)

lemma normalize_Inr:
  assumes "normalize s = Inr r"
  obtains parsed where "parseIntent s = Inr parsed"
    and "rawInput (response_intent r) = s"
    and "conflicts (response_intent r) = detectConflicts s"
    and "requiresClarification (response_intent r)
           = list_ex (\<lambda>c. severity c = Blocking) (detectConflicts s)"
    and "hard (constraints (response_intent r)) = hardConstraints parsed"
    and "soft (constraints (response_intent r)) = softConstraints parsed"
    and "primaryGoal (response_intent r) = parsed_primaryGoal parsed"
    and "outputExpectations (response_intent r) = parsed_outputExpectations parsed"
    and "irl r = generateIRL (response_intent r)"
    and "compiled r = compilePrompt (response_intent r)"
  using assms by (auto simp: normalize_def Let_def split: sum.splits)

lemma detect_loop_eq:
  "detect_loop l rules found = found @ map conflict_of (filter (fires l) rules)"
  by (induction rules arbitrary: found) auto

lemma detectConflicts_eq:
  "detectConflicts s = map conflict_of (filter (fires (toLowerCase s)) CONFLICT_RULES)"
  by (simp add: detectConflicts_def detect_loop_eq)

lemma blocking_rules:
  "filter (\<lambda>rule. rule_severity rule = Blocking) CONFLICT_RULES =
     [\<lparr>rule_terms = (''minimal'', ''feature-rich''),
       rule_description = ''Minimal design conflicts with feature-rich requirements'',
       rule_severity = Blocking, rule_type = GoalKind\<rparr>]"
  by (simp add: CONFLICT_RULES_def)

lemma blocking_detected:
  "list_ex (\<lambda>c. severity c = Blocking) (detectConflicts s) =
     (includes_str (toLowerCase s) ''minimal'' \<and> includes_str (toLowerCase s) ''feature-rich'')"
proof -
  have "list_ex (\<lambda>c. severity c = Blocking) (detectConflicts s) =
          list_ex (fires (toLowerCase s)) (filter (\<lambda>rule. rule_severity rule = Blocking) CONFLICT_RULES)"
    by (auto simp: detectConflicts_eq list_ex_iff conflict_of_def)
  then show ?thesis
    by (simp add: blocking_rules fires_def)
qed

lemma starts_with_take: "starts_with s t \<longleftrightarrow> take (length t) s = t"
  by (induction s t rule: starts_with.induct) auto

lemma includes_str_iff:
  "includes_str s t \<longleftrightarrow> (\<exists>i \<le> length s. take (length t) (drop i s) = t)"
proof (induction s)
  case Nil
  then show ?case by (simp add: starts_with_take)
next
  case (Cons d s)
  have "(\<exists>i \<le> length (d # s). take (length t) (drop i (d # s)) = t)
      \<longleftrightarrow> take (length t) (d # s) = t \<or> (\<exists>i \<le> length s. take (length t) (drop i s) = t)"
  proof
    assume "\<exists>i \<le> length (d # s). take (length t) (drop i (d # s)) = t"
    then obtain i where i: "i \<le> length (d # s)" "take (length t) (drop i (d # s)) = t" by blast
    show "take (length t) (d # s) = t \<or> (\<exists>i \<le> length s. take (length t) (drop i s) = t)"
    proof (cases i)
      case 0
      with i show ?thesis by simp
    next
      case (Suc j)
      with i have "j \<le> length s \<and> take (length t) (drop j s) = t" by simp
      then show ?thesis by blast
    qed
  next
    assume "take (length t) (d # s) = t \<or> (\<exists>i \<le> length s. take (length t) (drop i s) = t)"
    then show "\<exists>i \<le> length (d # s). take (length t) (drop i (d # s)) = t"
    proof
      assume "take (length t) (d # s) = t"
      then have "0 \<le> length (d # s) \<and> take (length t) (drop 0 (d # s)) = t" by simp
      then show ?thesis by blast
    next
      assume "\<exists>i \<le> length s. take (length t) (drop i s) = t"
      then obtain i where "i \<le> length s" "take (length t) (drop i s) = t" by blast
      then have "Suc i \<le> length (d # s) \<and> take (length t) (drop (Suc i) (d # s)) = t" by simp
      then show ?thesis by blast
    qed
  qed
  with Cons show ?case by (simp add: starts_with_take)
qed

lemma includes_lower_occurs_ci:
  assumes "map to_lower t = t"
  shows "includes_str (toLowerCase s) t \<longleftrightarrow> occurs_ci t s"
proof -
  have "set [0..<Suc (length s)] = {i. i \<le> length s}" by auto
  then have "occurs_ci t s \<longleftrightarrow> (\<exists>i \<le> length s. map to_lower (take (length t) (drop i s)) = t)"
    by (simp only: occurs_ci_def list_ex_iff assms) blast
  then show ?thesis
    by (simp add: includes_str_iff toLowerCase_def take_map drop_map)
qed

lemma count_in_filtered_map:
  "distinct (map f xs) \<Longrightarrow> x \<in> set xs \<Longrightarrow>
     length (filter (\<lambda>c. c = f x) (map f (filter P xs))) = (if P x then 1 else 0)"
proof (induction xs)
  case Nil
  then show ?case by simp
next
  case (Cons y ys)
  show ?case
  proof (cases "x = y")
    case True
    from Cons.prems(1) have "f y \<notin> f ` set ys" by simp
    then have "\<And>z. z \<in> set ys \<Longrightarrow> f z \<noteq> f y" by (metis imageI)
    then have "filter (\<lambda>x. P x \<and> f x = f y) ys = []"
      by (auto simp: filter_empty_conv)
    with True show ?thesis by simp
  next
    case False
    with Cons.prems have x: "x \<in> set ys" and d: "distinct (map f ys)" by simp_all
    from Cons.prems(1) x have "f y \<noteq> f x" by (auto simp: image_iff)
    with Cons.IH [OF d x] show ?thesis by (auto split: if_splits)
  qed
qed

lemma conflict_rules_distinct: "distinct (map conflict_of CONFLICT_RULES)"
  by (simp add: CONFLICT_RULES_def conflict_of_def)

lemma conflict_terms_lower:
  "rule \<in> set CONFLICT_RULES \<Longrightarrow>
     map to_lower (fst (rule_terms rule)) = fst (rule_terms rule)
     \<and> map to_lower (snd (rule_terms rule)) = snd (rule_terms rule)"
  by (auto simp: CONFLICT_RULES_def to_lower_Char has_lower_Char)

section \<open>The entry point on concrete inputs\<close>

lemma normalize_example_fast: "normalize ''must be fast, should be fast'' = Inr example_fast"
  by code_simp

lemma normalize_example_blocking: "normalize ''minimal, feature-rich'' = Inr example_blocking"
  by code_simp

lemma hard_example_comma:
  "extractConstraints ''ensure speed, not size'' HARD_CONSTRAINT_PATTERNS Hard =
     Inr [\<lparr>constraint_text = ''speed'', constraint_type = Hard\<rparr>]"
  by code_simp

lemma hard_example_exclamation:
  "extractConstraints ''must ship! now'' HARD_CONSTRAINT_PATTERNS Hard =
     Inr [\<lparr>constraint_text = ''ship! now'', constraint_type = Hard\<rparr>]"
  by code_simp

lemma hard_example_two:
  "extractConstraints ''no bugs, no lags'' HARD_CONSTRAINT_PATTERNS Hard =
     Inr [\<lparr>constraint_text = ''no bugs'', constraint_type = Hard\<rparr>,
          \<lparr>constraint_text = ''no lags'', constraint_type = Hard\<rparr>]"
  by code_simp

lemma search_example_first:
  "search (source (pattern (HARD_CONSTRAINT_PATTERNS ! 5))) (None, ''no bugs, no lags'') =
     Some ([], (Some CHR '','', '' no lags'', Some ''bugs''))"
  by code_simp

lemma search_example_second:
  "search (source (pattern (HARD_CONSTRAINT_PATTERNS ! 5))) (Some CHR '','', '' no lags'') =
     Some ('' '', (Some CHR ''s'', [], Some ''lags''))"
  by code_simp

lemma search_example_leading_comma:
  "search (source (pattern (HARD_CONSTRAINT_PATTERNS ! 0))) (None, ''must ,abcd, efgh'') =
     Some ([], (Some CHR '','', '' efgh'', Some '',abcd''))"
  by code_simp

lemma all_groups_example_two:
  "all_groups (source (pattern (HARD_CONSTRAINT_PATTERNS ! 5))) (None, ''no bugs, no lags'')
     = [Some ''bugs'', Some ''lags'']"
  by code_simp

lemma extractor_example_no:
  "extractor (HARD_CONSTRAINT_PATTERNS ! 5) (Some ''lags'') = Inr ''no lags''"
  by code_simp

lemma no_in_table:
  "HARD_CONSTRAINT_PATTERNS ! 5 \<in> set HARD_CONSTRAINT_PATTERNS"
  by (rule nth_mem) (simp add: HARD_CONSTRAINT_PATTERNS_def)

lemma occurs_example:
  "occurs_ci ''short'' ''Short but COMPREHENSIVE''"
  "occurs_ci ''comprehensive'' ''Short but COMPREHENSIVE''"
  by code_simp+

lemma goal_examples:
  "first_sentence '' '' ''Please  help me write code'' '' '' ''. Thanks''"
  "fold drop_phrase FILLER_PHRASES ''Please  help me write code'' = ''write code''"
  "capitalize ''write code'' = units ''Write code''"
  "first_sentence [] ''please please write code'' [] []"
  "fold drop_phrase FILLER_PHRASES ''please please write code'' = ''please write code''"
  "capitalize ''please write code'' = units ''Please write code''"
  "first_sentence [] ''help me please x'' [] []"
  "fold drop_phrase FILLER_PHRASES ''help me please x'' = ''please x''"
  "capitalize ''please x'' = units ''Please x''"
  "first_sentence [] ''please help me'' '' '' ''!''"
  "fold drop_phrase FILLER_PHRASES ''please help me'' = ''help me''"
  "capitalize ''help me'' = units ''Help me''"
  "blank '' ?! ''"
  "trim '' ?! '' = ''?!''"
  "case normalize '' Please  help me write code . Thanks'' of Inl e \<Rightarrow> False | Inr r \<Rightarrow> True"
  "\<not> blank ''please please write code''"
  by code_simp+

text \<open>
  Inputs with characters from U+0080 on: U+00C0 and U+00E0 agree up to case, U+00A0 is
  white space for the patterns and for \<^verbatim>\<open>trim\<close>, the capital of U+00E9 is U+00C9, that
  of U+00DF is SS and that of U+00B5 is U+039C.
\<close>

lemma latin1_examples:
  "extractConstraints (''must be '' @ [CHR 0xC0] @ ''BCD, must be '' @ [CHR 0xE0] @ ''bcd'')
     HARD_CONSTRAINT_PATTERNS Hard =
     Inr [\<lparr>constraint_text = [CHR 0xC0] @ ''BCD'', constraint_type = Hard\<rparr>]"
  "extractConstraints (''must'' @ [CHR 0xA0] @ ''be fast'') HARD_CONSTRAINT_PATTERNS Hard =
     Inr [\<lparr>constraint_text = ''fast'', constraint_type = Hard\<rparr>]"
  "extractConstraints (''ensure '' @ [CHR 0xA0] @ ''speed'' @ [CHR 0xA0] @ '', ok'')
     HARD_CONSTRAINT_PATTERNS Hard =
     Inr [\<lparr>constraint_text = ''speed'', constraint_type = Hard\<rparr>]"
  "extractPrimaryGoal ([CHR 0xE9] @ ''cole'') = units ([CHR 0xC9] @ ''cole'')"
  "extractPrimaryGoal ([CHR 0xDF] @ ''cole'') = units ''SScole''"
  "extractPrimaryGoal ([CHR 0xB5] @ ''cole'') = Above 0x39C # units ''cole''"
  "extractPrimaryGoal ([CHR 0xFF] @ ''cole'') = Above 0x178 # units ''cole''"
  by code_simp+

lemma normalize_example_json: "normalize ''json'' = Inr example_json"
  by code_simp

section \<open>Clarification and blocking conflicts\<close>

text \<open>
  Claim C1. For every input on which \<^verbatim>\<open>normalize\<close> returns, the returned Intent has
  \<^verbatim>\<open>requiresClarification\<close> true if and only if its list of conflicts has an entry with
  severity blocking. The pair minimal / feature-rich is the only rule of the conflict
  table with blocking severity, so the flag is true exactly when the lower-cased input
  includes both of these terms.
\<close>

theorem requiresClarification_iff_blocking:
  assumes "normalize s = Inr r"
  shows "(requiresClarification (response_intent r) \<longleftrightarrow>
            (\<exists>c \<in> set (conflicts (response_intent r)). severity c = Blocking))
       \<and> map rule_terms (filter (\<lambda>rule. rule_severity rule = Blocking) CONFLICT_RULES)
            = [(''minimal'', ''feature-rich'')]
       \<and> (requiresClarification (response_intent r) \<longleftrightarrow>
            includes_str (toLowerCase s) ''minimal''
            \<and> includes_str (toLowerCase s) ''feature-rich'')"
proof -
  from assms obtain parsed where
    c: "conflicts (response_intent r) = detectConflicts s" and
    q: "requiresClarification (response_intent r)
          = list_ex (\<lambda>c. severity c = Blocking) (detectConflicts s)"
    by (rule normalize_Inr)
  show ?thesis
    by (simp add: c q blocking_detected [symmetric] blocking_rules list_ex_iff)
qed

theorem requiresClarification_iff_blocking_witness:
  "normalize ''minimal, feature-rich'' = Inr example_blocking
   \<and> requiresClarification (response_intent example_blocking)
   \<and> (\<exists>c \<in> set (conflicts (response_intent example_blocking)). severity c = Blocking)
   \<and> includes_str (toLowerCase ''minimal, feature-rich'') ''minimal''
   \<and> includes_str (toLowerCase ''minimal, feature-rich'') ''feature-rich''"
proof -
  have q: "requiresClarification (response_intent example_blocking)"
    by (simp add: example_blocking_def)
  from requiresClarification_iff_blocking [OF normalize_example_blocking] q
  show ?thesis by (simp add: normalize_example_blocking)
qed

section \<open>The raw input\<close>

text \<open>
  Claim C9. For every input \<open>s\<close> on which \<^verbatim>\<open>normalize\<close> returns, the field
  \<^verbatim>\<open>rawInput\<close> of the returned Intent is \<open>s\<close> itself, not trimmed and not normalised.
\<close>

theorem rawInput_verbatim:
  "normalize s = Inr r \<Longrightarrow> rawInput (response_intent r) = s"
  by (erule normalize_Inr)

theorem rawInput_verbatim_witness:
  "normalize ''must be fast, should be fast'' = Inr example_fast
   \<and> rawInput (response_intent example_fast) = ''must be fast, should be fast''"
  using rawInput_verbatim [OF normalize_example_fast] normalize_example_fast by simp

section \<open>The empty input\<close>

text \<open>
  Claim C7. On the empty string \<^verbatim>\<open>normalize\<close> returns an Intent with the empty string
  as primary goal, no hard and no soft constraints, no conflicts, and
  \<^verbatim>\<open>requiresClarification\<close> false.
\<close>

theorem normalize_empty:
  "\<exists>r. normalize [] = Inr r
     \<and> primaryGoal (response_intent r) = []
     \<and> hard (constraints (response_intent r)) = []
     \<and> soft (constraints (response_intent r)) = []
     \<and> conflicts (response_intent r) = []
     \<and> requiresClarification (response_intent r) = False"
proof -
  have "case normalize [] of Inl e \<Rightarrow> False
        | Inr r \<Rightarrow> primaryGoal (response_intent r) = []
            \<and> hard (constraints (response_intent r)) = []
            \<and> soft (constraints (response_intent r)) = []
            \<and> conflicts (response_intent r) = []
            \<and> requiresClarification (response_intent r) = False"
    by code_simp
  then show ?thesis by (cases "normalize []") auto
qed

section \<open>The type tag of a constraint\<close>

text \<open>
  Claim C10. For every input on which \<^verbatim>\<open>normalize\<close> returns, every entry of the hard
  list has type hard and every entry of the soft list has type soft.
\<close>

theorem constraint_type_agrees:
  assumes "normalize s = Inr r"
  shows "(\<forall>c \<in> set (hard (constraints (response_intent r))). constraint_type c = Hard)
       \<and> (\<forall>c \<in> set (soft (constraints (response_intent r))). constraint_type c = Soft)"
proof -
  from assms obtain parsed where p: "parseIntent s = Inr parsed"
    and h: "hard (constraints (response_intent r)) = hardConstraints parsed"
    and f: "soft (constraints (response_intent r)) = softConstraints parsed"
    by (rule normalize_Inr)
  from extractConstraints_kept(1) [OF parseIntent_Inr(1) [OF p]]
       extractConstraints_kept(1) [OF parseIntent_Inr(2) [OF p]]
  show ?thesis by (simp add: h f)
qed

theorem constraint_type_agrees_witness:
  "normalize ''must be fast, should be fast'' = Inr example_fast
   \<and> map constraint_type (hard (constraints (response_intent example_fast))) = [Hard]
   \<and> map constraint_type (soft (constraints (response_intent example_fast))) = [Soft]"
  using constraint_type_agrees [OF normalize_example_fast] normalize_example_fast
  by (simp add: example_fast_def)

section \<open>The texts of the constraints\<close>

text \<open>
  Claim C3, as the code has it. For every input on which \<^verbatim>\<open>normalize\<close> returns, every
  text in the hard list and in the soft list has at least 4 and at most 99 characters
  (a length above 3 and below 100), no two entries of one list agree up to case, and each
  list holds, of the texts that its table extracts and that pass the length test, the
  first of those that agree up to case, in the order of the matches. Nothing is removed
  across the two lists: there is an input whose hard and soft lists hold the same text.
\<close>

theorem constraint_texts_kept:
  assumes "normalize s = Inr r"
  shows "(\<forall>c \<in> set (hard (constraints (response_intent r)) @ soft (constraints (response_intent r))).
            4 \<le> length (constraint_text c) \<and> length (constraint_text c) \<le> 99)
       \<and> distinct (map (\<lambda>c. toLowerCase (constraint_text c)) (hard (constraints (response_intent r))))
       \<and> distinct (map (\<lambda>c. toLowerCase (constraint_text c)) (soft (constraints (response_intent r))))
       \<and> map constraint_text (hard (constraints (response_intent r))) =
           first_kept (filter (\<lambda>t. 4 \<le> length t \<and> length t \<le> 99)
             (all_texts HARD_CONSTRAINT_PATTERNS s))
       \<and> map constraint_text (soft (constraints (response_intent r))) =
           first_kept (filter (\<lambda>t. 4 \<le> length t \<and> length t \<le> 99)
             (all_texts SOFT_CONSTRAINT_PATTERNS s))
       \<and> (\<exists>s' r'. normalize s' = Inr r'
             \<and> hard (constraints (response_intent r')) \<noteq> []
             \<and> map constraint_text (hard (constraints (response_intent r')))
                 = map constraint_text (soft (constraints (response_intent r'))))"
proof -
  from assms obtain parsed where p: "parseIntent s = Inr parsed"
    and h: "hard (constraints (response_intent r)) = hardConstraints parsed"
    and f: "soft (constraints (response_intent r)) = softConstraints parsed"
    by (rule normalize_Inr)
  note eh = parseIntent_Inr(1) [OF p] and ef = parseIntent_Inr(2) [OF p]
  have bounds: "(\<lambda>t. 4 \<le> length t \<and> length t \<le> 99) = (\<lambda>t::string. 3 < length t \<and> length t < 100)"
    by (rule ext) arith
  have gh: "\<forall>cp \<in> set HARD_CONSTRAINT_PATTERNS. global (pattern cp)"
    and gf: "\<forall>cp \<in> set SOFT_CONSTRAINT_PATTERNS. global (pattern cp)"
    using tables_global by simp_all
  have 1: "\<forall>c \<in> set (hard (constraints (response_intent r)) @ soft (constraints (response_intent r))).
            4 \<le> length (constraint_text c) \<and> length (constraint_text c) \<le> 99"
    using extractConstraints_kept(1) [OF eh] extractConstraints_kept(1) [OF ef]
    by (auto simp: h f)
  have 2: "distinct (map (\<lambda>c. toLowerCase (constraint_text c)) (hard (constraints (response_intent r))))"
    using extractConstraints_kept(2) [OF eh] by (simp add: h)
  have 3: "distinct (map (\<lambda>c. toLowerCase (constraint_text c)) (soft (constraints (response_intent r))))"
    using extractConstraints_kept(2) [OF ef] by (simp add: f)
  have 4: "map constraint_text (hard (constraints (response_intent r))) =
           first_kept (filter (\<lambda>t. 4 \<le> length t \<and> length t \<le> 99)
             (all_texts HARD_CONSTRAINT_PATTERNS s))"
    using extractConstraints_first_kept [OF gh eh] by (simp only: h bounds)
  have 5: "map constraint_text (soft (constraints (response_intent r))) =
           first_kept (filter (\<lambda>t. 4 \<le> length t \<and> length t \<le> 99)
             (all_texts SOFT_CONSTRAINT_PATTERNS s))"
    using extractConstraints_first_kept [OF gf ef] by (simp only: f bounds)
  have 6: "\<exists>s' r'. normalize s' = Inr r'
             \<and> hard (constraints (response_intent r')) \<noteq> []
             \<and> map constraint_text (hard (constraints (response_intent r')))
                 = map constraint_text (soft (constraints (response_intent r')))"
    by (rule exI [where x = "''must be fast, should be fast''"], rule exI [where x = example_fast])
       (simp add: normalize_example_fast, simp add: example_fast_def)
  from 1 2 3 4 5 6 show ?thesis by blast
qed

theorem constraint_texts_kept_witness:
  "normalize ''must be fast, should be fast'' = Inr example_fast
   \<and> map constraint_text (hard (constraints (response_intent example_fast))) = [''fast'']
   \<and> map constraint_text (soft (constraints (response_intent example_fast))) = [''fast'']
   \<and> first_kept (filter (\<lambda>t. 4 \<le> length t \<and> length t \<le> 99)
        (all_texts HARD_CONSTRAINT_PATTERNS ''must be fast, should be fast'')) = [''fast'']"
proof -
  have "map constraint_text (hard (constraints (response_intent example_fast))) = [''fast'']"
    by (simp add: example_fast_def)
  with constraint_texts_kept [OF normalize_example_fast] normalize_example_fast
  show ?thesis by (simp add: example_fast_def)
qed

text \<open>
  Claim C3 as it is stated asks for a length strictly between 4 and 99. The input below
  gives the hard constraint \<open>fast\<close>, of length 4.
\<close>

theorem constraint_text_of_length_four:
  "normalize ''must be fast, should be fast'' = Inr example_fast
   \<and> hard (constraints (response_intent example_fast))
       = [\<lparr>constraint_text = ''fast'', constraint_type = Hard\<rparr>]
   \<and> \<not> 4 < length ''fast''"
  by (simp add: normalize_example_fast example_fast_def)

section \<open>The extent of a clause\<close>

text \<open>
  Claim C4, as the code has it. For every hard or soft constraint rule and every call of
  \<^verbatim>\<open>exec\<close>, from any position of any input: the pattern is a trigger followed by the
  clause; group 1 of the match starts where the trigger ends and has at least one
  character. Its first character is any character but a line terminator, so that a full
  stop or a comma right after the trigger belongs to the clause. After its first character
  the group has no full stop and no comma, it has no line terminator, and it is followed
  by a full stop, a comma or the end of the input: a comma ends a clause, and an
  exclamation mark or a question mark does not. The text of the constraint is the trimmed
  group, after \<open>no\<close> and a blank for the rule of \<open>no\<close>, after \<open>without\<close> and a blank for the
  rule of \<open>without\<close>, and with nothing before it for the other eleven rules. And every
  successive match of the rule in the input is collected: if its text passes the length
  test, the list holds a text equal to it up to case.
\<close>

theorem clause_extent_and_collection:
  assumes "cp \<in> set (HARD_CONSTRAINT_PATTERNS @ SOFT_CONSTRAINT_PATTERNS)"
  shows "(search (source (pattern cp)) (p, cs) = Some (b, (p', cs', g)) \<longrightarrow>
           (\<exists>tr w u t. source (pattern cp) = Seq tr clause
              \<and> cs = b @ w @ u @ t @ cs'
              \<and> (\<exists>p0 p1 g1. (p1, u @ t @ cs', g1) \<in> set (matches tr (p0, w @ u @ t @ cs', None)))
              \<and> g = Some u \<and> u \<noteq> []
              \<and> (\<forall>c \<in> set u. \<not> is_line_terminator c)
              \<and> (\<forall>c \<in> set (tl u). c \<noteq> CHR ''.'' \<and> c \<noteq> CHR '','')
              \<and> (t = ''.'' \<or> t = '','' \<or> (t = [] \<and> cs' = []))
              \<and> (\<exists>pre \<in> set [[], ''no '', ''without '']. extractor cp g = Inr (pre @ trim u))))
       \<and> map (\<lambda>q. extractor q (Some v)) HARD_CONSTRAINT_PATTERNS =
           [Inr (trim v), Inr (trim v), Inr (trim v), Inr (trim v), Inr (trim v),
            Inr (''no '' @ trim v), Inr (''without '' @ trim v)]
       \<and> map (\<lambda>q. extractor q (Some v)) SOFT_CONSTRAINT_PATTERNS =
           [Inr (trim v), Inr (trim v), Inr (trim v), Inr (trim v), Inr (trim v), Inr (trim v)]
       \<and> ((cp \<in> set HARD_CONSTRAINT_PATTERNS
              \<and> extractConstraints s HARD_CONSTRAINT_PATTERNS Hard = Inr found
            \<or> cp \<in> set SOFT_CONSTRAINT_PATTERNS
              \<and> extractConstraints s SOFT_CONSTRAINT_PATTERNS Soft = Inr found)
           \<and> g' \<in> set (all_groups (source (pattern cp)) (None, s))
           \<and> extractor cp g' = Inr txt \<and> 3 < length txt \<and> length txt < 100
           \<longrightarrow> toLowerCase txt \<in> toLowerCase ` set (map constraint_text found))"
proof (intro conjI impI)
  assume m: "search (source (pattern cp)) (p, cs) = Some (b, (p', cs', g))"
  from table_shape [OF assms] obtain tr pre where
    shape: "pattern cp = \<lparr>source = Seq tr clause, global = True\<rparr>" and ex: "extractor cp = trimmed pre"
    and pre: "pre \<in> set [[], ''no '', ''without '']"
    by blast
  from shape have src: "source (pattern cp) = Seq tr clause" by simp
  from search_trigger_clause [OF m [unfolded src]] obtain w u t where
    u: "cs = b @ w @ u @ t @ cs'"
      "\<exists>p0 p1 g1. (p1, u @ t @ cs', g1) \<in> set (matches tr (p0, w @ u @ t @ cs', None))"
      "g = Some u" "u \<noteq> []" "\<forall>c \<in> set u. \<not> is_line_terminator c"
      "\<forall>c \<in> set (tl u). c \<noteq> CHR ''.'' \<and> c \<noteq> CHR '',''"
      "t = ''.'' \<or> t = '','' \<or> (t = [] \<and> cs' = [])"
    by blast
  have "extractor cp g = Inr (pre @ trim u)" by (simp add: ex u(3) trimmed_def)
  with pre have "\<exists>pre \<in> set [[], ''no '', ''without '']. extractor cp g = Inr (pre @ trim u)"
    by (rule bexI [rotated])
  with src u show "\<exists>tr w u t. source (pattern cp) = Seq tr clause
              \<and> cs = b @ w @ u @ t @ cs'
              \<and> (\<exists>p0 p1 g1. (p1, u @ t @ cs', g1) \<in> set (matches tr (p0, w @ u @ t @ cs', None)))
              \<and> g = Some u \<and> u \<noteq> []
              \<and> (\<forall>c \<in> set u. \<not> is_line_terminator c)
              \<and> (\<forall>c \<in> set (tl u). c \<noteq> CHR ''.'' \<and> c \<noteq> CHR '','')
              \<and> (t = ''.'' \<or> t = '','' \<or> (t = [] \<and> cs' = []))
              \<and> (\<exists>pre \<in> set [[], ''no '', ''without '']. extractor cp g = Inr (pre @ trim u))"
    by (intro exI [where x = tr] exI [where x = w] exI [where x = u] exI [where x = t]) simp
next
  show "map (\<lambda>q. extractor q (Some v)) HARD_CONSTRAINT_PATTERNS =
           [Inr (trim v), Inr (trim v), Inr (trim v), Inr (trim v), Inr (trim v),
            Inr (''no '' @ trim v), Inr (''without '' @ trim v)]"
    by (rule table_extractors)
next
  show "map (\<lambda>q. extractor q (Some v)) SOFT_CONSTRAINT_PATTERNS =
           [Inr (trim v), Inr (trim v), Inr (trim v), Inr (trim v), Inr (trim v), Inr (trim v)]"
    by (rule table_extractors)
next
  assume a: "(cp \<in> set HARD_CONSTRAINT_PATTERNS
              \<and> extractConstraints s HARD_CONSTRAINT_PATTERNS Hard = Inr found
            \<or> cp \<in> set SOFT_CONSTRAINT_PATTERNS
              \<and> extractConstraints s SOFT_CONSTRAINT_PATTERNS Soft = Inr found)
           \<and> g' \<in> set (all_groups (source (pattern cp)) (None, s))
           \<and> extractor cp g' = Inr txt \<and> 3 < length txt \<and> length txt < 100"
  have gh: "\<forall>cp \<in> set HARD_CONSTRAINT_PATTERNS. global (pattern cp)"
    and gf: "\<forall>cp \<in> set SOFT_CONSTRAINT_PATTERNS. global (pattern cp)"
    using tables_global by simp_all
  from a consider
      "cp \<in> set HARD_CONSTRAINT_PATTERNS" "extractConstraints s HARD_CONSTRAINT_PATTERNS Hard = Inr found"
    | "cp \<in> set SOFT_CONSTRAINT_PATTERNS" "extractConstraints s SOFT_CONSTRAINT_PATTERNS Soft = Inr found"
    by blast
  moreover from a have g: "g' \<in> set (all_groups (source (pattern cp)) (None, s))"
    and e: "extractor cp g' = Inr txt" and l: "3 < length txt" "length txt < 100"
    by simp_all
  ultimately show "toLowerCase txt \<in> toLowerCase ` set (map constraint_text found)"
  proof cases
    case 1
    show ?thesis by (rule clause_collected [OF gh 1(2) 1(1) g e l])
  next
    case 2
    show ?thesis by (rule clause_collected [OF gf 2(2) 2(1) g e l])
  qed
qed

theorem clause_extent_and_collection_witness:
  "HARD_CONSTRAINT_PATTERNS ! 5 \<in> set (HARD_CONSTRAINT_PATTERNS @ SOFT_CONSTRAINT_PATTERNS)
   \<and> search (source (pattern (HARD_CONSTRAINT_PATTERNS ! 5))) (None, ''no bugs, no lags'')
       = Some ([], (Some CHR '','', '' no lags'', Some ''bugs''))
   \<and> search (source (pattern (HARD_CONSTRAINT_PATTERNS ! 5))) (Some CHR '','', '' no lags'')
       = Some ('' '', (Some CHR ''s'', [], Some ''lags''))
   \<and> (\<exists>pre \<in> set [[], ''no '', ''without ''].
         extractor (HARD_CONSTRAINT_PATTERNS ! 5) (Some ''lags'') = Inr (pre @ ''lags''))
   \<and> all_groups (source (pattern (HARD_CONSTRAINT_PATTERNS ! 5))) (None, ''no bugs, no lags'')
       = [Some ''bugs'', Some ''lags'']
   \<and> extractor (HARD_CONSTRAINT_PATTERNS ! 5) (Some ''lags'') = Inr ''no lags''
   \<and> extractConstraints ''no bugs, no lags'' HARD_CONSTRAINT_PATTERNS Hard
       = Inr [\<lparr>constraint_text = ''no bugs'', constraint_type = Hard\<rparr>,
              \<lparr>constraint_text = ''no lags'', constraint_type = Hard\<rparr>]
   \<and> 3 < length ''no lags'' \<and> length ''no lags'' < 100
   \<and> toLowerCase ''no lags'' \<in> toLowerCase `
        set (map constraint_text [\<lparr>constraint_text = ''no bugs'', constraint_type = Hard\<rparr>,
                                  \<lparr>constraint_text = ''no lags'', constraint_type = Hard\<rparr>])
   \<and> search (source (pattern (HARD_CONSTRAINT_PATTERNS ! 0))) (None, ''must ,abcd, efgh'')
       = Some ([], (Some CHR '','', '' efgh'', Some '',abcd''))"
proof -
  have mem: "HARD_CONSTRAINT_PATTERNS ! 5 \<in> set (HARD_CONSTRAINT_PATTERNS @ SOFT_CONSTRAINT_PATTERNS)"
    using no_in_table by simp
  have grp: "Some ''lags'' \<in> set (all_groups (source (pattern (HARD_CONSTRAINT_PATTERNS ! 5)))
                                  (None, ''no bugs, no lags''))"
    by (simp add: all_groups_example_two)
  note inst = clause_extent_and_collection [OF mem, of "Some CHR '',''" "'' no lags''" "'' ''"
      "Some CHR ''s''" "[]" "Some ''lags''" _ "''no bugs, no lags''"
      "[\<lparr>constraint_text = ''no bugs'', constraint_type = Hard\<rparr>,
        \<lparr>constraint_text = ''no lags'', constraint_type = Hard\<rparr>]" "Some ''lags''" "''no lags''"]
  have trim_lags: "trim ''lags'' = ''lags''" by code_simp
  have 1: "\<exists>pre \<in> set [[], ''no '', ''without ''].
       extractor (HARD_CONSTRAINT_PATTERNS ! 5) (Some ''lags'') = Inr (pre @ ''lags'')"
    using inst [THEN conjunct1, rule_format, OF search_example_second]
  proof (elim exE conjE)
    fix tr w u t
    assume "Some ''lags'' = Some u"
      and "\<exists>pre \<in> set [[], ''no '', ''without ''].
         extractor (HARD_CONSTRAINT_PATTERNS ! 5) (Some ''lags'') = Inr (pre @ trim u)"
    with trim_lags show ?thesis by simp
  qed
  from inst [THEN conjunct2, THEN conjunct2, THEN conjunct2]
    no_in_table hard_example_two grp extractor_example_no
  have 2: "toLowerCase ''no lags'' \<in> toLowerCase `
        set (map constraint_text [\<lparr>constraint_text = ''no bugs'', constraint_type = Hard\<rparr>,
                                  \<lparr>constraint_text = ''no lags'', constraint_type = Hard\<rparr>])"
    by simp
  from mem search_example_first search_example_second 1 all_groups_example_two
    extractor_example_no hard_example_two 2 search_example_leading_comma
  show ?thesis by simp
qed

text \<open>
  Claim C4 as it is stated ends a clause at a full stop, an exclamation mark or a question
  mark only. The first input below has its clause cut at a comma, the second has a clause
  that runs over an exclamation mark.
\<close>

theorem clause_cut_at_comma_not_at_exclamation:
  "extractConstraints ''ensure speed, not size'' HARD_CONSTRAINT_PATTERNS Hard =
     Inr [\<lparr>constraint_text = ''speed'', constraint_type = Hard\<rparr>]
   \<and> extractConstraints ''must ship! now'' HARD_CONSTRAINT_PATTERNS Hard =
     Inr [\<lparr>constraint_text = ''ship! now'', constraint_type = Hard\<rparr>]"
  using hard_example_comma hard_example_exclamation by simp

section \<open>The conflict detector, rule by rule\<close>

text \<open>
  Claim C2. For every rule of the conflict table and every input, \<^verbatim>\<open>detectConflicts\<close>
  returns exactly one Conflict with the type, severity, description and terms of the rule
  when both terms occur in the input in some casing at some position, and none when one of
  them does not. The rules fire independently: the result is the list of the conflicts of
  the rules that fire, in the order of the table, with nothing removed.
\<close>

theorem detectConflicts_per_rule:
  assumes "rule \<in> set CONFLICT_RULES"
  shows "length (filter (\<lambda>c. c = conflict_of rule) (detectConflicts s)) =
           (if occurs_ci (fst (rule_terms rule)) s \<and> occurs_ci (snd (rule_terms rule)) s
            then 1 else 0)
       \<and> conflict_type (conflict_of rule) = rule_type rule
       \<and> severity (conflict_of rule) = rule_severity rule
       \<and> description (conflict_of rule) = rule_description rule
       \<and> terms (conflict_of rule) = rule_terms rule
       \<and> detectConflicts s = map conflict_of
            (filter (\<lambda>x. occurs_ci (fst (rule_terms x)) s \<and> occurs_ci (snd (rule_terms x)) s)
               CONFLICT_RULES)"
proof -
  have fires: "fires (toLowerCase s) x \<longleftrightarrow>
      occurs_ci (fst (rule_terms x)) s \<and> occurs_ci (snd (rule_terms x)) s"
    if "x \<in> set CONFLICT_RULES" for x
    using conflict_terms_lower [OF that]
    by (simp add: fires_def includes_lower_occurs_ci)
  have eq: "detectConflicts s = map conflict_of
            (filter (\<lambda>x. occurs_ci (fst (rule_terms x)) s \<and> occurs_ci (snd (rule_terms x)) s)
               CONFLICT_RULES)"
    unfolding detectConflicts_eq
    by (rule arg_cong [where f = "map conflict_of"], rule filter_cong [OF refl]) (rule fires)
  have "length (filter (\<lambda>c. c = conflict_of rule) (detectConflicts s)) =
          (if fires (toLowerCase s) rule then 1 else 0)"
    unfolding detectConflicts_eq
    by (rule count_in_filtered_map [OF conflict_rules_distinct assms])
  then have count: "length (filter (\<lambda>c. c = conflict_of rule) (detectConflicts s)) =
           (if occurs_ci (fst (rule_terms rule)) s \<and> occurs_ci (snd (rule_terms rule)) s
            then 1 else 0)"
    by (simp only: fires [OF assms])
  have fields: "conflict_type (conflict_of rule) = rule_type rule"
    "severity (conflict_of rule) = rule_severity rule"
    "description (conflict_of rule) = rule_description rule"
    "terms (conflict_of rule) = rule_terms rule"
    by (simp_all add: conflict_of_def)
  from count fields eq show ?thesis by (intro conjI)
qed

theorem detectConflicts_per_rule_witness:
  "CONFLICT_RULES ! 1 \<in> set CONFLICT_RULES
   \<and> rule_terms (CONFLICT_RULES ! 1) = (''short'', ''comprehensive'')
   \<and> occurs_ci ''short'' ''Short but COMPREHENSIVE''
   \<and> occurs_ci ''comprehensive'' ''Short but COMPREHENSIVE''
   \<and> length (filter (\<lambda>c. c = conflict_of (CONFLICT_RULES ! 1))
        (detectConflicts ''Short but COMPREHENSIVE'')) = 1"
proof -
  have mem: "CONFLICT_RULES ! 1 \<in> set CONFLICT_RULES"
    by (rule nth_mem) (simp add: CONFLICT_RULES_def)
  have t: "rule_terms (CONFLICT_RULES ! 1) = (''short'', ''comprehensive'')"
    by (simp add: CONFLICT_RULES_def)
  from detectConflicts_per_rule [OF mem, of "''Short but COMPREHENSIVE''", THEN conjunct1]
    occurs_example t
  have "length (filter (\<lambda>c. c = conflict_of (CONFLICT_RULES ! 1))
        (detectConflicts ''Short but COMPREHENSIVE'')) = 1" by simp
  with occurs_example mem t show ?thesis by simp
qed

section \<open>The primary goal\<close>

text \<open>
  Claim C5, as the code has it. The primary goal of the returned Intent is the result of
  \<^verbatim>\<open>extractPrimaryGoal\<close> on the input. On a blank input, one with white space and sentence
  ends only, it is the trimmed input. Every other input has a first sentence, and the goal
  is made of it in two steps. First the five filler phrases are gone through once, in the
  order I want (you) to, please, can you, help me, I need (you) to: the phrase whose turn it
  is is dropped if the text that is left starts with it, in any casing, its words and what
  comes after it separated by white space; if not, the text stays as it is. So each phrase
  is dropped at most once, several phrases that follow each other in this order are all
  dropped, and a phrase that stands at the start after its turn stays. Then the first
  character is put in upper case.
\<close>

theorem primaryGoal_drops_each_filler_once:
  "(\<forall>r. normalize s = Inr r \<longrightarrow> primaryGoal (response_intent r) = extractPrimaryGoal s)
   \<and> (blank s \<longrightarrow> extractPrimaryGoal s = units (trim s))
   \<and> (\<not> blank s \<longrightarrow>
        (\<exists>lead g ws tail. s = lead @ g @ ws @ tail \<and> first_sentence lead g ws tail))
   \<and> (\<forall>lead g ws tail.
         s = lead @ g @ ws @ tail \<and> first_sentence lead g ws tail
         \<longrightarrow> extractPrimaryGoal s = capitalize (fold drop_phrase FILLER_PHRASES g))"
proof (intro conjI allI impI)
  fix r
  assume n: "normalize s = Inr r"
  then obtain parsed where p: "parseIntent s = Inr parsed"
    and g: "primaryGoal (response_intent r) = parsed_primaryGoal parsed"
    by (rule normalize_Inr)
  from g parseIntent_Inr(4) [OF p]
  show "primaryGoal (response_intent r) = extractPrimaryGoal s" by simp
next
  assume "blank s"
  then show "extractPrimaryGoal s = units (trim s)" by (rule goal_blank)
next
  assume "\<not> blank s"
  then show "\<exists>lead g ws tail. s = lead @ g @ ws @ tail \<and> first_sentence lead g ws tail"
    by (rule first_sentence_exists)
next
  fix lead g ws tail
  assume a: "s = lead @ g @ ws @ tail \<and> first_sentence lead g ws tail"
  then have "first_sentence lead g ws tail" by simp
  from goal_first_sentence [OF this] a
  show "extractPrimaryGoal s = capitalize (fold drop_phrase FILLER_PHRASES g)" by simp
qed

theorem primaryGoal_drops_each_filler_once_witness:
  "(\<exists>r. normalize '' Please  help me write code . Thanks'' = Inr r
        \<and> primaryGoal (response_intent r) = units ''Write code'')
   \<and> first_sentence '' '' ''Please  help me write code'' '' '' ''. Thanks''
   \<and> fold drop_phrase FILLER_PHRASES ''Please  help me write code'' = ''write code''
   \<and> extractPrimaryGoal '' Please  help me write code . Thanks'' = units ''Write code''
   \<and> first_sentence [] ''please please write code'' [] []
   \<and> fold drop_phrase FILLER_PHRASES ''please please write code'' = ''please write code''
   \<and> extractPrimaryGoal ''please please write code'' = units ''Please write code''
   \<and> first_sentence [] ''help me please x'' [] []
   \<and> fold drop_phrase FILLER_PHRASES ''help me please x'' = ''please x''
   \<and> extractPrimaryGoal ''help me please x'' = units ''Please x''
   \<and> first_sentence [] ''please help me'' '' '' ''!''
   \<and> fold drop_phrase FILLER_PHRASES ''please help me'' = ''help me''
   \<and> extractPrimaryGoal ''please help me !'' = units ''Help me''
   \<and> blank '' ?! ''
   \<and> extractPrimaryGoal '' ?! '' = units ''?!''
   \<and> \<not> blank ''please please write code''
   \<and> (\<exists>lead g ws tail. ''please please write code'' = lead @ g @ ws @ tail
         \<and> first_sentence lead g ws tail)"
proof -
  note goal = primaryGoal_drops_each_filler_once
    [THEN conjunct2, THEN conjunct2, THEN conjunct2, rule_format]
  have 1: "extractPrimaryGoal '' Please  help me write code . Thanks'' = units ''Write code''"
    using goal [of "'' Please  help me write code . Thanks''"
        "'' ''" "''Please  help me write code''" "'' ''" "''. Thanks''"]
      goal_examples(1) by (simp add: goal_examples(2,3))
  have 2: "extractPrimaryGoal ''please please write code'' = units ''Please write code''"
    using goal [of "''please please write code''" "[]" "''please please write code''" "[]" "[]"]
      goal_examples(4) by (simp add: goal_examples(5,6))
  have 3: "extractPrimaryGoal ''help me please x'' = units ''Please x''"
    using goal [of "''help me please x''" "[]" "''help me please x''" "[]" "[]"]
      goal_examples(7) by (simp add: goal_examples(8,9))
  have 4: "extractPrimaryGoal ''please help me !'' = units ''Help me''"
    using goal [of "''please help me !''" "[]" "''please help me''" "'' ''" "''!''"]
      goal_examples(10) by (simp add: goal_examples(11,12))
  have 5: "extractPrimaryGoal '' ?! '' = units ''?!''"
    using primaryGoal_drops_each_filler_once [of "'' ?! ''", THEN conjunct2, THEN conjunct1]
      goal_examples(13) by (simp add: goal_examples(14))
  from goal_examples(15) obtain r where
    r: "normalize '' Please  help me write code . Thanks'' = Inr r"
    by (cases "normalize '' Please  help me write code . Thanks''") auto
  with primaryGoal_drops_each_filler_once [of "'' Please  help me write code . Thanks''",
      THEN conjunct1, rule_format, of r] 1
  have "primaryGoal (response_intent r) = units ''Write code''" by simp
  with r have 6: "\<exists>r. normalize '' Please  help me write code . Thanks'' = Inr r
        \<and> primaryGoal (response_intent r) = units ''Write code''" by blast
  have 7: "\<exists>lead g ws tail. ''please please write code'' = lead @ g @ ws @ tail
         \<and> first_sentence lead g ws tail"
    using primaryGoal_drops_each_filler_once [of "''please please write code''",
        THEN conjunct2, THEN conjunct2, THEN conjunct1] goal_examples(16)
    by (rule mp)
  from 1 2 3 4 5 6 7 goal_examples(1,2,4,5,7,8,10,11,13,16) show ?thesis
    by - (intro conjI; assumption)
qed

text \<open>
  Claim C5 as it is stated removes at most one filler phrase, so that of "please help me
  write code" the goal would be "Help me write code".
\<close>

theorem two_stacked_fillers_removed:
  "extractPrimaryGoal ''please help me write code'' = units ''Write code''"
  by code_simp

section \<open>The length line of the notation\<close>

text \<open>The renderer writes a length line for every length that is not null.\<close>

lemma irl_length_line:
  assumes "outputExpectations i = Some oe" and "oe_length oe = Some l"
  shows "units (''- Length: '' @ len_str l) \<in> set (irl_lines i)"
  using assms by (simp add: irl_lines_def output_lines_def)

text \<open>
  Claim C6 asks that the notation has no line for the length "any". The renderer tests
  the length for being present only, so the line is written for every length; on the
  input "json" the expectations have the length "any" and the notation has the line
  "- Length: any".
\<close>

theorem notation_shows_any_length:
  "normalize ''json'' = Inr example_json
   \<and> outputExpectations (response_intent example_json)
       = Some \<lparr>oe_length = Some AnyLength, format = Some ''JSON'', structure = None\<rparr>
   \<and> irl_lines (response_intent example_json)
       = map units
          [''@goal Json'', [], ''@output'', ''- Length: any'', ''- Format: JSON'', [],
           ''@assumptions'', ''- Assuming general audience with moderate technical knowledge'',
           ''- No specific domain context detected'']
   \<and> irl example_json = generateIRL (response_intent example_json)"
proof -
  have "irl_lines (response_intent example_json)
       = map units
          [''@goal Json'', [], ''@output'', ''- Length: any'', ''- Format: JSON'', [],
           ''@assumptions'', ''- Assuming general audience with moderate technical knowledge'',
           ''- No specific domain context detected'']"
    by code_simp
  moreover have "irl example_json = generateIRL (response_intent example_json)"
    using normalize_example_json by (rule normalize_Inr)
  ultimately show ?thesis
    by (simp add: normalize_example_json) (simp add: example_json_def)
qed

section \<open>Inputs on which the entry point does not return\<close>

text \<open>
  Claim C8 asks that \<^verbatim>\<open>normalize\<close> returns on every input. The first structure pattern
  has no flag g, so each call of \<^verbatim>\<open>exec\<close> in the loop over its matches starts at the
  beginning of the input again: once the input has a match, the loop never ends. The lemma
  \<open>normalize_outcome\<close> above says that this is the only way not to return.
\<close>

theorem normalize_never_returns:
  "normalize ''Write a guide with sections'' = Inl Diverges"
  by code_simp

end
